theory Spec2Isabelle
  imports Complex_Main "HOL-Library.AList"
begin

section \<open>JavaScript numbers\<close>

text \<open>
  What a slot of type \<open>number\<close> or \<open>number | undefined\<close> holds: a finite number, with
  exact arithmetic on \<^typ>\<open>real\<close>; \<open>NaN\<close>; or \<open>undefined\<close>, which is what an optional
  field holds when it is written as \<open>{velocity: undefined}\<close>.  Arithmetic converts
  \<open>undefined\<close> to \<open>NaN\<close> and \<open>NaN\<close> propagates; a comparison with \<open>NaN\<close> is \<open>false\<close>.
  The infinities are not represented: a quotient by zero, which JavaScript makes infinite
  or \<open>NaN\<close>, is \<open>NaN\<close> here, and nothing overflows.

  Timestamps and the time between two frames stay in \<^typ>\<open>real\<close>: the platform passes
  finite timestamps.  \<open>Math.round\<close> is \<open>\<lfloor>x + 1/2\<rfloor>\<close>, which is \<^const>\<open>round\<close>.
\<close>

datatype number = Num real | NaN | Undefined

fun lift2 :: "(real \<Rightarrow> real \<Rightarrow> real) \<Rightarrow> number \<Rightarrow> number \<Rightarrow> number" where
  "lift2 f (Num a) (Num b) = Num (f a b)"
| "lift2 f (Num a) NaN = NaN"
| "lift2 f (Num a) Undefined = NaN"
| "lift2 f NaN y = NaN"
| "lift2 f Undefined y = NaN"

fun number_divide :: "number \<Rightarrow> number \<Rightarrow> number" where
  "number_divide (Num a) (Num b) = (if b = 0 then NaN else Num (a / b))"
| "number_divide (Num a) NaN = NaN"
| "number_divide (Num a) Undefined = NaN"
| "number_divide NaN y = NaN"
| "number_divide Undefined y = NaN"

fun number_uminus :: "number \<Rightarrow> number" where
  "number_uminus (Num a) = Num (- a)"
| "number_uminus NaN = NaN"
| "number_uminus Undefined = NaN"

text \<open>\<open>Math.abs\<close>.\<close>

fun number_abs :: "number \<Rightarrow> number" where
  "number_abs (Num a) = Num \<bar>a\<bar>"
| "number_abs NaN = NaN"
| "number_abs Undefined = NaN"

fun number_less :: "number \<Rightarrow> number \<Rightarrow> bool" where
  "number_less (Num a) (Num b) = (a < b)"
| "number_less (Num a) NaN = False"
| "number_less (Num a) Undefined = False"
| "number_less NaN y = False"
| "number_less Undefined y = False"

fun number_less_eq :: "number \<Rightarrow> number \<Rightarrow> bool" where
  "number_less_eq (Num a) (Num b) = (a \<le> b)"
| "number_less_eq (Num a) NaN = False"
| "number_less_eq (Num a) Undefined = False"
| "number_less_eq NaN y = False"
| "number_less_eq Undefined y = False"

instantiation number :: "{zero, one, plus, minus, uminus, times, inverse, abs, ord}"
begin

definition zero_number :: number where
  "zero_number = Num 0"

definition one_number :: number where
  "one_number = Num 1"

definition plus_number :: "number \<Rightarrow> number \<Rightarrow> number" where
  "plus_number = lift2 (+)"

definition minus_number :: "number \<Rightarrow> number \<Rightarrow> number" where
  "minus_number = lift2 (-)"

definition times_number :: "number \<Rightarrow> number \<Rightarrow> number" where
  "times_number = lift2 (*)"

definition uminus_number :: "number \<Rightarrow> number" where
  "uminus_number = number_uminus"

definition divide_number :: "number \<Rightarrow> number \<Rightarrow> number" where
  "divide_number = number_divide"

definition inverse_number :: "number \<Rightarrow> number" where
  "inverse_number x = number_divide (Num 1) x"

definition abs_number :: "number \<Rightarrow> number" where
  "abs_number = number_abs"

definition less_number :: "number \<Rightarrow> number \<Rightarrow> bool" where
  "less_number = number_less"

definition less_eq_number :: "number \<Rightarrow> number \<Rightarrow> bool" where
  "less_eq_number = number_less_eq"

instance ..

end

instance number :: semigroup_add
proof
  fix a b c :: number
  show "a + b + c = a + (b + c)"
    by (cases a; cases b; cases c) (simp_all add: plus_number_def)
qed

instance number :: numeral ..

text \<open>
  \<open>x === y\<close> on these values: \<open>NaN\<close> equals nothing, itself included.  Against a
  finite constant, as in \<open>offset === 0\<close>, it is the equality of the logic, which is what
  the definitions below write.
\<close>

fun strict_eq :: "number \<Rightarrow> number \<Rightarrow> bool" where
  "strict_eq (Num a) (Num b) = (a = b)"
| "strict_eq Undefined Undefined = True"
| "strict_eq (Num a) NaN = False"
| "strict_eq (Num a) Undefined = False"
| "strict_eq NaN y = False"
| "strict_eq Undefined (Num b) = False"
| "strict_eq Undefined NaN = False"

text \<open>\<open>x ?? d\<close>; no slot of the program holds \<open>null\<close>.\<close>

definition nullish :: "number \<Rightarrow> number \<Rightarrow> number" where
  "nullish x d = (if x = Undefined then d else x)"

text \<open>Reading an optional field: an absent field reads as \<open>undefined\<close>.\<close>

definition read_field :: "number option \<Rightarrow> number" where
  "read_field f = (case f of None \<Rightarrow> Undefined | Some x \<Rightarrow> x)"

section \<open>Data model of EasySpring.ts\<close>

text \<open>
  \<open>SpringConfig\<close> is the interface whose fields are all optional: \<open>None\<close> is a field
  that is absent, \<open>Some x\<close> a field the object has, whose value \<open>x\<close> may be
  \<open>undefined\<close>.  \<open>RequiredConfig\<close> is \<open>Required<SpringConfig>\<close>, the type of the
  objects spread builds; their fields exist, and hold \<open>undefined\<close> when an object spread
  into them had it.
\<close>

record SpringConfig =
  mass_opt :: "number option"
  tension_opt :: "number option"
  friction_opt :: "number option"
  precision_opt :: "number option"
  velocity_opt :: "number option"
  clamp_opt :: "bool option option"

record RequiredConfig =
  mass :: number
  tension :: number
  friction :: number
  precision :: number
  velocity :: number
  clamp :: "bool option"

text \<open>
  \<open>SpringOption\<close>: the three callbacks are caller code; the model keeps whether each one
  was supplied and logs every invocation in the trace of the state.
\<close>

record SpringOption =
  opt_config :: "SpringConfig option"
  opt_value :: "number option"
  onChange :: bool
  onStart :: bool
  onRest :: bool

text \<open>
  Objects of type \<open>Required<SpringConfig>\<close> live in a store and are referred to by
  address, so that sharing between the instance and what the accessor hands out can be
  expressed.  \<open>info.config\<close> and \<open>info.runtime.startConfig\<close> hold addresses.
\<close>

type_synonym addr = nat

record Runtime =
  goal :: number
  current :: number
  v :: number
  running :: bool
  startConfig :: "addr option"

record SpringInfo =
  runtime :: Runtime
  config :: addr

text \<open>
  One \<open>Spring\<close> is the environment the closures of one controller share: the generated
  \<open>id\<close> (field \<open>key\<close>), the \<open>option\<close> bundle and \<open>info\<close>.
\<close>

record Spring =
  key :: nat
  option :: SpringOption
  info :: SpringInfo

text \<open>
  An invocation of a callback, with the controller it received (the handle of its spring)
  and the value of \<open>controller.current\<close> at that moment.
\<close>

datatype callback = OnChange nat number | OnStart nat number | OnRest nat number

fun cb_handle :: "callback \<Rightarrow> nat" where
  "cb_handle (OnChange h x) = h"
| "cb_handle (OnStart h x) = h"
| "cb_handle (OnRest h x) = h"


text \<open>
  The singleton \<open>EasySpring\<close> and its environment.
  \<^item> \<open>objs\<close>: every spring ever created; a controller is the index (handle) of its
    spring, which stays valid after \<open>remove\<close>, as the closure does.
  \<^item> \<open>springs\<close>: the \<open>Map\<close> from id to entry, in insertion order, the entry given by
    its handle.
  \<^item> \<open>raf\<close>, \<open>lastT\<close>: the fields of \<open>EasySpring.info\<close>.
  \<^item> \<open>cfgHeap\<close>: the store of \<open>Required<SpringConfig>\<close> objects.
  \<^item> \<open>frameCounter\<close>, \<open>pendingFrames\<close>: the platform's frame service, the last handle
    it issued and the requests not yet fired or cancelled.
  \<^item> \<open>trace\<close>: the callbacks invoked so far, oldest first.
\<close>

record EasySpring =
  objs :: "Spring list"
  springs :: "(nat \<times> nat) list"
  raf :: "nat option"
  lastT :: real
  cfgHeap :: "RequiredConfig list"
  frameCounter :: nat
  pendingFrames :: "nat list"
  trace :: "callback list"

definition springDefaultConfig :: RequiredConfig where
  "springDefaultConfig =
     \<lparr>mass = 1, tension = 170, friction = 26, precision = 1 / 100, velocity = 0,
      clamp = Some False\<rparr>"

definition frameResolution :: real where
  "frameResolution = 1000 / 60 / 100"

definition initial :: EasySpring where
  "initial =
     \<lparr>objs = [], springs = [], raf = None, lastT = - 1, cfgHeap = [],
      frameCounter = 0, pendingFrames = [], trace = []\<rparr>"

section \<open>Object spread\<close>

text \<open>\<open>{...base, ...over}\<close>: every field present in \<open>over\<close> wins.\<close>

definition spread :: "RequiredConfig \<Rightarrow> SpringConfig \<Rightarrow> RequiredConfig" where
  "spread base over =
     \<lparr>mass = (case mass_opt over of None \<Rightarrow> mass base | Some x \<Rightarrow> x),
      tension = (case tension_opt over of None \<Rightarrow> tension base | Some x \<Rightarrow> x),
      friction = (case friction_opt over of None \<Rightarrow> friction base | Some x \<Rightarrow> x),
      precision = (case precision_opt over of None \<Rightarrow> precision base | Some x \<Rightarrow> x),
      velocity = (case velocity_opt over of None \<Rightarrow> velocity base | Some x \<Rightarrow> x),
      clamp = (case clamp_opt over of None \<Rightarrow> clamp base | Some x \<Rightarrow> x)\<rparr>"

text \<open>Spreading \<open>undefined\<close> (an omitted argument) contributes no field.\<close>

definition spread_opt :: "RequiredConfig \<Rightarrow> SpringConfig option \<Rightarrow> RequiredConfig" where
  "spread_opt base over = (case over of None \<Rightarrow> base | Some c \<Rightarrow> spread base c)"

text \<open>A \<open>Required<SpringConfig>\<close> object seen as a \<open>SpringConfig\<close>: all fields present.\<close>

definition all_fields :: "RequiredConfig \<Rightarrow> SpringConfig" where
  "all_fields c =
     \<lparr>mass_opt = Some (mass c), tension_opt = Some (tension c),
      friction_opt = Some (friction c), precision_opt = Some (precision c),
      velocity_opt = Some (velocity c), clamp_opt = Some (clamp c)\<rparr>"

definition alloc :: "RequiredConfig \<Rightarrow> EasySpring \<Rightarrow> addr \<times> EasySpring" where
  "alloc c s = (length (cfgHeap s), s\<lparr>cfgHeap := cfgHeap s @ [c]\<rparr>)"

section \<open>The platform's frame service\<close>

definition requestAnimationFrame :: "EasySpring \<Rightarrow> nat \<times> EasySpring" where
  "requestAnimationFrame s =
     (let h = Suc (frameCounter s)
      in (h, s\<lparr>frameCounter := h, pendingFrames := pendingFrames s @ [h]\<rparr>))"

definition cancelAnimationFrame :: "nat \<Rightarrow> EasySpring \<Rightarrow> EasySpring" where
  "cancelAnimationFrame h s = s\<lparr>pendingFrames := removeAll h (pendingFrames s)\<rparr>"

section \<open>Access to one spring\<close>

definition spring :: "EasySpring \<Rightarrow> nat \<Rightarrow> Spring" where
  "spring s h = objs s ! h"

definition rt :: "EasySpring \<Rightarrow> nat \<Rightarrow> Runtime" where
  "rt s h = runtime (info (spring s h))"

definition upd_runtime :: "nat \<Rightarrow> (Runtime \<Rightarrow> Runtime) \<Rightarrow> EasySpring \<Rightarrow> EasySpring" where
  "upd_runtime h f s =
     s\<lparr>objs := (objs s)[h := (spring s h)\<lparr>info := (info (spring s h))
          \<lparr>runtime := f (rt s h)\<rparr>\<rparr>]\<rparr>"

text \<open>\<open>option.cb?.(controller)\<close>: the call happens when the callback was supplied.\<close>

definition fire :: "bool \<Rightarrow> (nat \<Rightarrow> number \<Rightarrow> callback) \<Rightarrow> nat \<Rightarrow> EasySpring \<Rightarrow> EasySpring" where
  "fire supplied cb h s =
     (if supplied then s\<lparr>trace := trace s @ [cb h (current (rt s h))]\<rparr> else s)"

section \<open>The scheduler\<close>

text \<open>\<open>if (this.info.raf)\<close>: \<open>null\<close> and \<open>0\<close> are falsy.\<close>

definition truthy :: "nat option \<Rightarrow> bool" where
  "truthy r = (case r of None \<Rightarrow> False | Some h \<Rightarrow> h \<noteq> 0)"

definition stopAnimationFrame :: "EasySpring \<Rightarrow> EasySpring" where
  "stopAnimationFrame s =
     (let s1 = (case raf s of
                  None \<Rightarrow> s
                | Some h \<Rightarrow> (cancelAnimationFrame h s)\<lparr>raf := None\<rparr>)
      in s1\<lparr>lastT := - 1\<rparr>)"

definition hasRunning :: "EasySpring \<Rightarrow> bool" where
  "hasRunning s = fold (\<lambda>e acc. acc \<or> running (rt s (snd e))) (springs s) False"

definition checkIdle :: "EasySpring \<Rightarrow> EasySpring" where
  "checkIdle s = (if \<not> hasRunning s then stopAnimationFrame s else s)"

text \<open>
  The sub-step loop of \<open>onFrame\<close> for one spring, \<open>for (let i = 1; i <= hPFrameFactor;
  i++)\<close>, by the number of iterations left.  The flag of the result says whether the loop
  ran to its end (\<open>True\<close>) or the callback of \<open>forEach\<close> returned from inside it.
\<close>

fun subSteps ::
  "nat \<Rightarrow> RequiredConfig \<Rightarrow> number \<Rightarrow> nat \<Rightarrow> EasySpring \<Rightarrow> bool \<times> EasySpring" where
  "subSteps 0 cfg deltaTH h s = (True, s)"
| "subSteps (Suc k) cfg deltaTH h s =
     (let offset = goal (rt s h) - current (rt s h) in
      if offset = 0 \<and> v (rt s h) = 0 then
        (if running (rt s h) then
           (False,
            checkIdle (upd_runtime h (\<lambda>r. r\<lparr>running := False\<rparr>)
              (fire (onRest (option (spring s h))) OnRest h s)))
         else (False, s))
      else if \<bar>offset\<bar> < precision cfg \<and> \<bar>v (rt s h)\<bar> < precision cfg then
        (False,
         checkIdle (upd_runtime h (\<lambda>r. r\<lparr>running := False\<rparr>)
           (fire (onRest (option (spring s h))) OnRest h
             (fire (onChange (option (spring s h))) OnChange h
               (upd_runtime h (\<lambda>r. r\<lparr>current := goal r\<rparr>)
                 (upd_runtime h (\<lambda>r. r\<lparr>v := 0\<rparr>) s))))))
      else
        (let f = tension cfg * offset;
             a = (f - friction cfg * v (rt s h)) / mass cfg;
             deltaV = (a * deltaTH) / 1000;
             s1 = upd_runtime h (\<lambda>r. r\<lparr>v := v r + deltaV\<rparr>) s;
             deltaD = (v (rt s1 h) * deltaTH) / 1000;
             s2 = upd_runtime h (\<lambda>r. r\<lparr>current := current r + deltaD\<rparr>) s1;
             s3 = upd_runtime h (\<lambda>r. r\<lparr>running := True\<rparr>) s2
         in subSteps k cfg deltaTH h s3))"

text \<open>\<open>info.runtime.startConfig ?? info.config\<close>, dereferenced.\<close>

definition activeConfig :: "EasySpring \<Rightarrow> nat \<Rightarrow> RequiredConfig" where
  "activeConfig s h =
     cfgHeap s ! (case startConfig (rt s h) of
                    None \<Rightarrow> config (info (spring s h))
                  | Some a \<Rightarrow> a)"

text \<open>The callback passed to \<open>this.springs.forEach\<close>, for the entry with handle \<open>h\<close>.\<close>

definition forEachCallback :: "real \<Rightarrow> int \<Rightarrow> nat \<Rightarrow> EasySpring \<Rightarrow> EasySpring" where
  "forEachCallback deltaT hPFrameFactor h s =
     (let cfg = activeConfig s h;
          (completed, s1) =
            subSteps (nat hPFrameFactor) cfg (Num (deltaT / of_int hPFrameFactor)) h s
      in if completed then fire (onChange (option (spring s1 h))) OnChange h s1 else s1)"

definition onFrame :: "real \<Rightarrow> EasySpring \<Rightarrow> EasySpring" where
  "onFrame t s =
     (let (h, s1) = requestAnimationFrame s;
          s2 = s1\<lparr>raf := Some h\<rparr>;
          s3 = (if lastT s2 < 0 then s2\<lparr>lastT := t\<rparr> else s2);
          deltaT = t - lastT s3;
          s4 = s3\<lparr>lastT := t\<rparr>
      in if deltaT > 100 then s4\<lparr>lastT := - 1\<rparr>
         else
           (let hPFrameFactor = round (deltaT / frameResolution)
            in fold (forEachCallback deltaT hPFrameFactor) (map snd (springs s4)) s4))"

definition startAnimationFrame :: "EasySpring \<Rightarrow> EasySpring" where
  "startAnimationFrame s =
     (if truthy (raf s) then s
      else (let (h, s1) = requestAnimationFrame s in s1\<lparr>raf := Some h\<rparr>))"

section \<open>Creating a controller\<close>

text \<open>
  \<open>generateId\<close> draws random integers in \<open>[0, 10^15)\<close> until one is not among the
  existing keys.  The draws are an input (the list of numbers \<open>Math.random\<close> will give);
  \<open>None\<close> means all of them collided and the loop is still running.  A key is the
  decimal string of the integer, modelled by the integer.
\<close>

fun generateId :: "nat list \<Rightarrow> nat list \<Rightarrow> nat option" where
  "generateId existingKeys [] = None"
| "generateId existingKeys (r # rs) =
     (if r \<in> set existingKeys then generateId existingKeys rs else Some r)"

text \<open>
  \<open>controller(option)\<close> returns the handle of the new controller.  \<open>Map.set\<close> replaces the
  value of a key that exists and appends a new key otherwise, as \<^const>\<open>AList.update\<close>.
\<close>

definition controller ::
  "SpringOption \<Rightarrow> nat list \<Rightarrow> EasySpring \<Rightarrow> (nat \<times> EasySpring) option" where
  "controller opt draws s =
     (case generateId (map fst (springs s)) draws of
        None \<Rightarrow> None
      | Some k \<Rightarrow>
          (let (a, s1) = alloc (spread_opt springDefaultConfig (opt_config opt)) s;
               inf = \<lparr>runtime = \<lparr>goal = 0,
                        current = nullish (read_field (opt_value opt)) 0,
                        v = 0, running = False, startConfig = None\<rparr>,
                      config = a\<rparr>;
               h = length (objs s1)
           in Some (h, s1\<lparr>objs := objs s1 @ [\<lparr>key = k, option = opt, info = inf\<rparr>],
                          springs := AList.update k h (springs s1)\<rparr>)))"

section \<open>The operations of a controller\<close>

text \<open>\<open>get config() { return { ...info.config } }\<close>: a new object with the same fields.\<close>

definition get_config :: "nat \<Rightarrow> EasySpring \<Rightarrow> addr \<times> EasySpring" where
  "get_config h s = alloc (cfgHeap s ! config (info (spring s h))) s"

definition get_current :: "nat \<Rightarrow> EasySpring \<Rightarrow> number" where
  "get_current h s = current (rt s h)"

definition get_goal :: "nat \<Rightarrow> EasySpring \<Rightarrow> number" where
  "get_goal h s = goal (rt s h)"

text \<open>
  \<open>start(value, config)\<close>.  \<open>this.config\<close> goes through the accessor, so a copy is made
  and spread; the new \<open>startConfig\<close> is an object of its own.  Its \<open>velocity\<close> is
  \<open>undefined\<close> when the last object that has the field has it so, and then \<open>?? 0\<close>
  makes \<open>v\<close> zero.
\<close>

definition start :: "nat \<Rightarrow> number \<Rightarrow> SpringConfig option \<Rightarrow> EasySpring \<Rightarrow> EasySpring" where
  "start h x cfg s =
     (let s1 = upd_runtime h (\<lambda>r. r\<lparr>goal := x\<rparr>) s;
          s2 = upd_runtime h (\<lambda>r. r\<lparr>running := True\<rparr>) s1;
          (c, s3) = get_config h s2;
          (a, s4) = alloc (spread_opt (spread springDefaultConfig (all_fields (cfgHeap s3 ! c))) cfg) s3;
          s5 = upd_runtime h (\<lambda>r. r\<lparr>startConfig := Some a\<rparr>) s4;
          s6 = upd_runtime h (\<lambda>r. r\<lparr>v := nullish (velocity (cfgHeap s5 ! a)) 0\<rparr>) s5;
          s7 = fire (onStart (option (spring s6 h))) OnStart h s6
      in startAnimationFrame s7)"

definition pause :: "nat \<Rightarrow> EasySpring \<Rightarrow> EasySpring" where
  "pause h s = s"

definition set_value :: "nat \<Rightarrow> number \<Rightarrow> EasySpring \<Rightarrow> EasySpring" where
  "set_value h x s =
     (let hasChanged = (\<not> strict_eq x (current (rt s h)));
          s1 = upd_runtime h (\<lambda>r. r\<lparr>goal := x\<rparr>) s;
          s2 = upd_runtime h (\<lambda>r. r\<lparr>current := x\<rparr>) s1;
          s3 = upd_runtime h (\<lambda>r. r\<lparr>v := 0\<rparr>) s2;
          s4 = upd_runtime h (\<lambda>r. r\<lparr>running := False\<rparr>) s3;
          s5 = (if hasChanged then fire (onChange (option (spring s4 h))) OnChange h s4 else s4)
      in checkIdle s5)"

definition remove :: "nat \<Rightarrow> EasySpring \<Rightarrow> EasySpring" where
  "remove h s = s\<lparr>springs := AList.delete (key (spring s h)) (springs s)\<rparr>"

text \<open>A caller writing to a configuration object it holds.\<close>

definition mutate :: "addr \<Rightarrow> (RequiredConfig \<Rightarrow> RequiredConfig) \<Rightarrow> EasySpring \<Rightarrow> EasySpring" where
  "mutate a f s = s\<lparr>cfgHeap := (cfgHeap s)[a := f (cfgHeap s ! a)]\<rparr>"

section \<open>Runs\<close>

text \<open>
  What can happen between two turns of the event loop: a call of \<open>controller\<close>, a call
  of an operation of an existing controller, or the platform firing the oldest pending
  frame request at time \<open>t\<close> (nothing happens when none is pending).
\<close>

datatype action =
    Create SpringOption "nat list"
  | Start nat number "SpringConfig option"
  | Set nat number
  | Pause nat
  | Remove nat
  | Frame real

fun exec :: "action \<Rightarrow> EasySpring \<Rightarrow> EasySpring option" where
  "exec (Create opt draws) s = map_option snd (controller opt draws s)"
| "exec (Start h x cfg) s = (if h < length (objs s) then Some (start h x cfg s) else None)"
| "exec (Set h x) s = (if h < length (objs s) then Some (set_value h x s) else None)"
| "exec (Pause h) s = (if h < length (objs s) then Some (pause h s) else None)"
| "exec (Remove h) s = (if h < length (objs s) then Some (remove h s) else None)"
| "exec (Frame t) s =
     (case pendingFrames s of
        [] \<Rightarrow> Some s
      | f # fs \<Rightarrow> Some (onFrame t (s\<lparr>pendingFrames := fs\<rparr>)))"

fun run :: "action list \<Rightarrow> EasySpring \<Rightarrow> EasySpring option" where
  "run [] s = Some s"
| "run (a # as) s = (case exec a s of None \<Rightarrow> None | Some s1 \<Rightarrow> run as s1)"

section \<open>The other copy of the scheduler\<close>

text \<open>
  The second source file of the repository (\<open>src/unnamed/part_000\<close>) is a copy of
  \<open>EasySpring.ts\<close> that differs in the scheduler and in \<open>start\<close>; the rest (\<open>checkIdle\<close>,
  \<open>stopAnimationFrame\<close>, \<open>startAnimationFrame\<close>, \<open>controller\<close>, \<open>set\<close>, \<open>remove\<close>) is the
  same up to logging.  There the runtime has no \<open>startConfig\<close> (the field of the model
  stays \<open>None\<close>), \<open>frameResolution\<close> is \<open>(1000 / 60) / 30\<close>, the loop over the
  sub-steps is the outer loop and \<open>forEach\<close> the inner one, the configuration read is
  \<open>info.config\<close>, and \<open>onChange\<close> is called at the end of the callback of \<open>forEach\<close>.
\<close>

definition frameResolution_000 :: real where
  "frameResolution_000 = (1000 / 60) / 30"

definition forEachCallback_000 :: "number \<Rightarrow> nat \<Rightarrow> EasySpring \<Rightarrow> EasySpring" where
  "forEachCallback_000 deltaTH h s =
     (let offset = goal (rt s h) - current (rt s h);
          cfg = cfgHeap s ! config (info (spring s h)) in
      if offset = 0 \<and> v (rt s h) = 0 then
        (if running (rt s h) then
           checkIdle (upd_runtime h (\<lambda>r. r\<lparr>running := False\<rparr>)
             (fire (onRest (option (spring s h))) OnRest h s))
         else s)
      else if \<bar>offset\<bar> < precision cfg \<and> \<bar>v (rt s h)\<bar> < precision cfg then
        checkIdle (upd_runtime h (\<lambda>r. r\<lparr>running := False\<rparr>)
          (fire (onRest (option (spring s h))) OnRest h
            (fire (onChange (option (spring s h))) OnChange h
              (upd_runtime h (\<lambda>r. r\<lparr>current := goal r\<rparr>)
                (upd_runtime h (\<lambda>r. r\<lparr>v := 0\<rparr>) s)))))
      else
        (let f = tension cfg * offset;
             a = (f - friction cfg * v (rt s h)) / mass cfg;
             deltaV = (a * deltaTH) / 1000;
             s1 = upd_runtime h (\<lambda>r. r\<lparr>v := v r + deltaV\<rparr>) s;
             deltaD = (v (rt s1 h) * deltaTH) / 1000;
             s2 = upd_runtime h (\<lambda>r. r\<lparr>current := current r + deltaD\<rparr>) s1;
             s3 = upd_runtime h (\<lambda>r. r\<lparr>running := True\<rparr>) s2
         in fire (onChange (option (spring s3 h))) OnChange h s3))"

fun subStepLoop_000 :: "nat \<Rightarrow> number \<Rightarrow> EasySpring \<Rightarrow> EasySpring" where
  "subStepLoop_000 0 deltaTH s = s"
| "subStepLoop_000 (Suc k) deltaTH s =
     subStepLoop_000 k deltaTH (fold (forEachCallback_000 deltaTH) (map snd (springs s)) s)"

definition onFrame_000 :: "real \<Rightarrow> EasySpring \<Rightarrow> EasySpring" where
  "onFrame_000 t s =
     (let (h, s1) = requestAnimationFrame s;
          s2 = s1\<lparr>raf := Some h\<rparr>;
          s3 = (if lastT s2 < 0 then s2\<lparr>lastT := t\<rparr> else s2);
          deltaT = t - lastT s3;
          s4 = s3\<lparr>lastT := t\<rparr>
      in if deltaT > 100 then s4\<lparr>lastT := - 1\<rparr>
         else
           (let hPFrameFactor = round (deltaT / frameResolution_000)
            in subStepLoop_000 (nat hPFrameFactor) (Num (deltaT / of_int hPFrameFactor)) s4))"

definition start_000 :: "nat \<Rightarrow> number \<Rightarrow> EasySpring \<Rightarrow> EasySpring" where
  "start_000 h x s =
     (let s1 = upd_runtime h (\<lambda>r. r\<lparr>goal := x\<rparr>) s;
          s2 = upd_runtime h (\<lambda>r. r\<lparr>running := True\<rparr>) s1;
          s3 = fire (onStart (option (spring s2 h))) OnStart h s2
      in startAnimationFrame s3)"

text \<open>The platform firing the oldest pending frame request, with this scheduler.\<close>

definition tick_000 :: "real \<Rightarrow> EasySpring \<Rightarrow> EasySpring" where
  "tick_000 t s =
     (case pendingFrames s of
        [] \<Rightarrow> s
      | f # fs \<Rightarrow> onFrame_000 t (s\<lparr>pendingFrames := fs\<rparr>))"

section \<open>Vocabulary of the statements\<close>

text \<open>The two rest conditions of the sub-step loop, as the source tests them.\<close>

definition exactRest :: "EasySpring \<Rightarrow> nat \<Rightarrow> bool" where
  "exactRest s h \<longleftrightarrow> goal (rt s h) - current (rt s h) = 0 \<and> v (rt s h) = 0"

definition nearRest :: "RequiredConfig \<Rightarrow> EasySpring \<Rightarrow> nat \<Rightarrow> bool" where
  "nearRest cfg s h \<longleftrightarrow>
     \<bar>goal (rt s h) - current (rt s h)\<bar> < precision cfg \<and> \<bar>v (rt s h)\<bar> < precision cfg"

text \<open>
  The handles of the registered springs, and the frame loop being active: a frame request
  is pending at the platform.
\<close>

definition registered :: "EasySpring \<Rightarrow> nat list" where
  "registered s = map snd (springs s)"

definition loopActive :: "EasySpring \<Rightarrow> bool" where
  "loopActive s \<longleftrightarrow> pendingFrames s \<noteq> []"

text \<open>
  What an idle check leaves behind, seen from outside: going from \<open>s\<close> to \<open>s'\<close>, the
  scheduler is untouched when a registered spring of \<open>s'\<close> is running, and otherwise
  the request held in \<open>raf\<close> is cancelled, \<open>raf\<close> is \<open>null\<close> and \<open>lastT\<close> is \<open>-1\<close>.
\<close>

definition idleChecked :: "EasySpring \<Rightarrow> EasySpring \<Rightarrow> bool" where
  "idleChecked s s' \<longleftrightarrow>
     (if \<exists>h \<in> set (registered s'). running (rt s' h)
      then raf s' = raf s \<and> lastT s' = lastT s \<and> pendingFrames s' = pendingFrames s
      else raf s' = None \<and> lastT s' = - 1 \<and>
           pendingFrames s' =
             (case raf s of None \<Rightarrow> pendingFrames s
              | Some r \<Rightarrow> removeAll r (pendingFrames s)))"

section \<open>Example states\<close>

text \<open>An option bundle with the three callbacks, no \<open>config\<close> and the given \<open>value\<close>.\<close>

definition plain_option :: "number option \<Rightarrow> SpringOption" where
  "plain_option x =
     \<lparr>opt_config = None, opt_value = x, onChange = True, onStart = True, onRest = True\<rparr>"

definition example_spring :: "nat \<Rightarrow> number option \<Rightarrow> Runtime \<Rightarrow> addr \<Rightarrow> Spring" where
  "example_spring k x r a =
     \<lparr>key = k, option = plain_option x, info = \<lparr>runtime = r, config = a\<rparr>\<rparr>"

text \<open>
  A spring created with value \<open>0.005\<close> and started toward \<open>0\<close>, after the first tick:
  within \<open>precision\<close> of its goal, not exactly on it.
\<close>

definition near_rest_example :: EasySpring where
  "near_rest_example =
     \<lparr>objs = [example_spring 7 (Some (1 / 200))
                \<lparr>goal = 0, current = 1 / 200, v = 0, running = True, startConfig = Some 2\<rparr> 0],
      springs = [(7, 0)], raf = Some 2, lastT = 0,
      cfgHeap = [springDefaultConfig, springDefaultConfig, springDefaultConfig],
      frameCounter = 2, pendingFrames = [2],
      trace = [OnStart 0 (1 / 200), OnChange 0 (1 / 200)]\<rparr>"

text \<open>A spring created at \<open>0\<close> and started toward \<open>0\<close>, after the first tick.\<close>

definition exact_rest_example :: EasySpring where
  "exact_rest_example =
     \<lparr>objs = [example_spring 7 None
                \<lparr>goal = 0, current = 0, v = 0, running = True, startConfig = Some 2\<rparr> 0],
      springs = [(7, 0)], raf = Some 2, lastT = 0,
      cfgHeap = [springDefaultConfig, springDefaultConfig, springDefaultConfig],
      frameCounter = 2, pendingFrames = [2],
      trace = [OnStart 0 0, OnChange 0 0]\<rparr>"

text \<open>
  Two springs created at \<open>0\<close>; the second was started and then removed, and one tick has
  passed.  The spring left in the registry never ran.
\<close>

definition stale_loop_example :: EasySpring where
  "stale_loop_example =
     \<lparr>objs = [example_spring 7 None
                \<lparr>goal = 0, current = 0, v = 0, running = False, startConfig = None\<rparr> 0,
              example_spring 8 None
                \<lparr>goal = 1, current = 0, v = 0, running = True, startConfig = Some 3\<rparr> 1],
      springs = [(7, 0)], raf = Some 2, lastT = 0,
      cfgHeap = [springDefaultConfig, springDefaultConfig, springDefaultConfig,
                 springDefaultConfig],
      frameCounter = 2, pendingFrames = [2],
      trace = [OnStart 1 0, OnChange 0 0]\<rparr>"

section \<open>The integrator in the words of the specification\<close>

definition spec_offset :: "Runtime \<Rightarrow> number" where
  "spec_offset r = goal r - current r"

definition spec_force :: "RequiredConfig \<Rightarrow> Runtime \<Rightarrow> number" where
  "spec_force cfg r = tension cfg * spec_offset r"

definition spec_accel :: "RequiredConfig \<Rightarrow> Runtime \<Rightarrow> number" where
  "spec_accel cfg r = (spec_force cfg r - friction cfg * v r) / mass cfg"

definition spec_newVelocity :: "RequiredConfig \<Rightarrow> number \<Rightarrow> Runtime \<Rightarrow> number" where
  "spec_newVelocity cfg dtH r = v r + (spec_accel cfg r * dtH) / 1000"

definition spec_newPosition :: "RequiredConfig \<Rightarrow> number \<Rightarrow> Runtime \<Rightarrow> number" where
  "spec_newPosition cfg dtH r = current r + (spec_newVelocity cfg dtH r * dtH) / 1000"

definition eulerStep :: "RequiredConfig \<Rightarrow> number \<Rightarrow> Runtime \<Rightarrow> Runtime" where
  "eulerStep cfg dtH r =
     r\<lparr>v := spec_newVelocity cfg dtH r, current := spec_newPosition cfg dtH r,
       running := True\<rparr>"

text \<open>A spring started from \<open>0\<close> toward \<open>100\<close>, after the first tick.\<close>

definition moving_example :: EasySpring where
  "moving_example =
     \<lparr>objs = [example_spring 7 None
                \<lparr>goal = 100, current = 0, v = 0, running = True, startConfig = Some 2\<rparr> 0],
      springs = [(7, 0)], raf = Some 2, lastT = 0,
      cfgHeap = [springDefaultConfig, springDefaultConfig, springDefaultConfig],
      frameCounter = 2, pendingFrames = [2],
      trace = [OnStart 0 0, OnChange 0 0]\<rparr>"

section \<open>Well-formed states\<close>

text \<open>
  What holds of every state the operations can reach (\<open>wf_run\<close> below): a registry entry
  leads to a spring that exists and carries the entry's key, keys are not repeated,
  configuration addresses are allocated, and the platform holds exactly the request
  recorded in \<open>raf\<close>.
\<close>

definition reg_ok :: "EasySpring \<Rightarrow> bool" where
  "reg_ok s \<longleftrightarrow>
     (\<forall>e \<in> set (springs s). snd e < length (objs s) \<and> key (spring s (snd e)) = fst e) \<and>
     distinct (map fst (springs s))"

definition cfg_ok :: "EasySpring \<Rightarrow> bool" where
  "cfg_ok s \<longleftrightarrow>
     (\<forall>sp \<in> set (objs s).
        config (info sp) < length (cfgHeap s) \<and>
        (case startConfig (runtime (info sp)) of
           None \<Rightarrow> True
         | Some a \<Rightarrow> a < length (cfgHeap s)))"

definition sched_ok :: "EasySpring \<Rightarrow> bool" where
  "sched_ok s \<longleftrightarrow>
     (case raf s of
        None \<Rightarrow> pendingFrames s = []
      | Some r \<Rightarrow> pendingFrames s = [r] \<and> 0 < r \<and> r \<le> frameCounter s)"

definition wf :: "EasySpring \<Rightarrow> bool" where
  "wf s \<longleftrightarrow> reg_ok s \<and> cfg_ok s \<and> sched_ok s"

text \<open>An override of \<open>friction\<close> and \<open>velocity\<close> only.\<close>

definition example_override :: SpringConfig where
  "example_override =
     \<lparr>mass_opt = None, tension_opt = None, friction_opt = Some 10, precision_opt = None,
      velocity_opt = Some 3, clamp_opt = None\<rparr>"

text \<open>The override \<open>{velocity: undefined}\<close>.\<close>

definition undefined_velocity_override :: SpringConfig where
  "undefined_velocity_override =
     \<lparr>mass_opt = None, tension_opt = None, friction_opt = None, precision_opt = None,
      velocity_opt = Some Undefined, clamp_opt = None\<rparr>"

section \<open>One spring during one tick\<close>

text \<open>
  The sub-step loop as one spring sees it: from the runtime \<open>r\<close> of the spring, whether
  the loop ran to its end, the runtime it leaves, and the callbacks of the spring it
  called.  \<open>springFrame\<close> adds the \<open>onChange\<close> that follows a loop that ran to its end.
  That \<open>subSteps\<close> and \<open>forEachCallback\<close> do this to the spring is \<open>subSteps_springLoop\<close>
  and \<open>forEachCallback_springFrame\<close>.
\<close>

fun springLoop ::
  "nat \<Rightarrow> RequiredConfig \<Rightarrow> number \<Rightarrow> SpringOption \<Rightarrow> nat \<Rightarrow> Runtime
   \<Rightarrow> bool \<times> Runtime \<times> callback list" where
  "springLoop 0 cfg dtH opt h r = (True, r, [])"
| "springLoop (Suc k) cfg dtH opt h r =
     (if goal r - current r = 0 \<and> v r = 0 then
        (if running r
         then (False, r\<lparr>running := False\<rparr>, if onRest opt then [OnRest h (current r)] else [])
         else (False, r, []))
      else if \<bar>goal r - current r\<bar> < precision cfg \<and> \<bar>v r\<bar> < precision cfg then
        (False, r\<lparr>v := 0, current := goal r, running := False\<rparr>,
         (if onChange opt then [OnChange h (goal r)] else [])
         @ (if onRest opt then [OnRest h (goal r)] else []))
      else springLoop k cfg dtH opt h (eulerStep cfg dtH r))"

definition springFrame ::
  "int \<Rightarrow> RequiredConfig \<Rightarrow> real \<Rightarrow> SpringOption \<Rightarrow> nat \<Rightarrow> Runtime
   \<Rightarrow> Runtime \<times> callback list" where
  "springFrame n cfg deltaT opt h r =
     (case springLoop (nat n) cfg (Num (deltaT / of_int n)) opt h r of
        (completed, r1, es) \<Rightarrow>
          (r1, es @ (if completed \<and> onChange opt then [OnChange h (current r1)] else [])))"

text \<open>The callbacks of one spring in a trace.\<close>

definition callbacks_of :: "nat \<Rightarrow> callback list \<Rightarrow> callback list" where
  "callbacks_of h tr = filter (\<lambda>e. cb_handle e = h) tr"

text \<open>
  The elapsed time a tick at time \<open>t\<close> computes in state \<open>s\<close>, and its number of
  sub-steps.
\<close>

definition elapsed :: "real \<Rightarrow> EasySpring \<Rightarrow> real" where
  "elapsed t s = (if lastT s < 0 then 0 else t - lastT s)"

definition subStepCount :: "real \<Rightarrow> EasySpring \<Rightarrow> int" where
  "subStepCount t s = round (elapsed t s / frameResolution)"

text \<open>
  A spring created with value \<open>5\<close> and never started, beside a spring started toward
  \<open>100\<close>, after the first tick (at time \<open>16\<close>).
\<close>

definition bystander_example :: EasySpring where
  "bystander_example =
     \<lparr>objs = [example_spring 7 (Some 5)
                \<lparr>goal = 0, current = 5, v = 0, running = False, startConfig = None\<rparr> 0,
              example_spring 8 None
                \<lparr>goal = 100, current = 0, v = 0, running = True, startConfig = Some 3\<rparr> 1],
      springs = [(7, 0), (8, 1)], raf = Some 2, lastT = 16,
      cfgHeap = [springDefaultConfig, springDefaultConfig, springDefaultConfig,
                 springDefaultConfig],
      frameCounter = 2, pendingFrames = [2],
      trace = [OnStart 1 0, OnChange 0 5, OnChange 1 0]\<rparr>"

text \<open>The runtime \<open>controller\<close> gives a new spring whose \<open>option.value\<close> is \<open>x\<close>.\<close>

definition created :: "number \<Rightarrow> Runtime" where
  "created x = \<lparr>goal = 0, current = x, v = 0, running = False, startConfig = None\<rparr>"

text \<open>An action that calls \<open>start\<close> or \<open>set\<close> of the controller \<open>h\<close>.\<close>

fun calls :: "nat \<Rightarrow> action \<Rightarrow> bool" where
  "calls h (Start g x c) = (g = h)"
| "calls h (Set g x) = (g = h)"
| "calls h (Create opt draws) = False"
| "calls h (Pause g) = False"
| "calls h (Remove g) = False"
| "calls h (Frame t) = False"

text \<open>An action that calls \<open>remove\<close>.\<close>

fun is_Remove :: "action \<Rightarrow> bool" where
  "is_Remove (Remove g) = True"
| "is_Remove (Create opt draws) = False"
| "is_Remove (Start g x c) = False"
| "is_Remove (Set g x) = False"
| "is_Remove (Pause g) = False"
| "is_Remove (Frame t) = False"

text \<open>
  The idle-shutdown property of a state, and every spring being registered (as long as
  nothing was removed).
\<close>

definition idle_shutdown :: "EasySpring \<Rightarrow> bool" where
  "idle_shutdown s \<longleftrightarrow> hasRunning s \<or> raf s = None"

definition all_registered :: "EasySpring \<Rightarrow> bool" where
  "all_registered s \<longleftrightarrow> (\<forall>h < length (objs s). h \<in> set (registered s))"

section \<open>Arithmetic of JavaScript numbers\<close>

lemma numeral_number [simp, code_unfold]: "(numeral k :: number) = Num (numeral k)"
  by (induction k) (simp_all only: numeral.simps one_number_def plus_number_def lift2.simps)

lemma number_finite [simp]:
  "(0 :: number) = Num 0" "(1 :: number) = Num 1"
  "Num a + Num b = Num (a + b)" "Num a - Num b = Num (a - b)"
  "Num a * Num b = Num (a * b)"
  "Num a / Num b = (if b = 0 then NaN else Num (a / b))"
  "- Num a = Num (- a)" "\<bar>Num a\<bar> = Num \<bar>a\<bar>"
  "Num a < Num b \<longleftrightarrow> a < b" "Num a \<le> Num b \<longleftrightarrow> a \<le> b"
  by (simp_all add: zero_number_def one_number_def plus_number_def minus_number_def
      times_number_def divide_number_def uminus_number_def abs_number_def less_number_def
      less_eq_number_def)

lemma number_NaN_left [simp]:
  "NaN + y = NaN" "NaN - y = NaN" "NaN * y = NaN" "NaN / y = NaN"
  "Undefined + y = NaN" "Undefined - y = NaN" "Undefined * y = NaN" "Undefined / y = NaN"
  "\<bar>NaN\<bar> = NaN" "\<bar>Undefined\<bar> = NaN" "- NaN = NaN" "- Undefined = NaN"
  "\<not> NaN < y" "\<not> Undefined < y" "\<not> NaN \<le> y" "\<not> Undefined \<le> y"
  by (simp_all add: plus_number_def minus_number_def times_number_def divide_number_def
      uminus_number_def abs_number_def less_number_def less_eq_number_def)

lemma number_NaN_right [simp]:
  "x + NaN = NaN" "x - NaN = NaN" "x * NaN = NaN" "x / NaN = NaN"
  "x + Undefined = NaN" "x - Undefined = NaN" "x * Undefined = NaN" "x / Undefined = NaN"
  "\<not> x < NaN" "\<not> x < Undefined" "\<not> x \<le> NaN" "\<not> x \<le> Undefined"
  by (cases x; simp add: plus_number_def minus_number_def times_number_def divide_number_def
      less_number_def less_eq_number_def)+

lemma number_less_eq_not_less: "(a :: number) \<le> b \<Longrightarrow> \<not> b < a"
  by (cases a; cases b) simp_all

lemma number_abs_zero_minus [simp]: "\<bar>Num 0 - x\<bar> = \<bar>x :: number\<bar>"
  by (cases x) simp_all

lemma number_zero_minus_eq_zero [simp]: "Num 0 - x = Num 0 \<longleftrightarrow> x = Num 0"
  by (cases x) simp_all

lemma number_abs_less_pos: "\<bar>x\<bar> < p \<Longrightarrow> Num 0 < p"
  by (cases x; cases p) simp_all

lemma number_times_minus_zero: "a * b - Num 0 = (a * b :: number)"
  by (cases a; cases b) simp_all

lemma number_zero_plus_divide: "Num 0 + a * b / c = (a * b / c :: number)"
  by (cases a; cases b; cases c) simp_all

lemma strict_eq_refl: "strict_eq x x \<longleftrightarrow> x \<noteq> NaN"
  by (cases x) simp_all


lemma strict_eq_zero: "strict_eq x 0 \<longleftrightarrow> x = 0"
  by (cases x) simp_all

section \<open>Basic facts about the state\<close>

lemma length_objs_upd_runtime [simp]: "length (objs (upd_runtime h f s)) = length (objs s)"
  by (simp add: upd_runtime_def)

lemma rt_upd_runtime_same [simp]:
  "h < length (objs s) \<Longrightarrow> rt (upd_runtime h f s) h = f (rt s h)"
  by (simp add: upd_runtime_def rt_def spring_def)

lemma spring_upd_runtime_other [simp]:
  "h' \<noteq> h \<Longrightarrow> spring (upd_runtime h f s) h' = spring s h'"
  by (simp add: upd_runtime_def spring_def)

lemma rt_upd_runtime_other [simp]:
  "h' \<noteq> h \<Longrightarrow> rt (upd_runtime h f s) h' = rt s h'"
  by (simp add: rt_def)

lemma option_upd_runtime [simp]: "option (spring (upd_runtime h f s) h') = option (spring s h')"
  by (cases "h' = h"; cases "h < length (objs s)") (simp_all add: upd_runtime_def spring_def list_update_beyond)

lemma key_upd_runtime [simp]: "key (spring (upd_runtime h f s) h') = key (spring s h')"
  by (cases "h' = h"; cases "h < length (objs s)") (simp_all add: upd_runtime_def spring_def list_update_beyond)

lemma config_upd_runtime [simp]:
  "config (info (spring (upd_runtime h f s) h')) = config (info (spring s h'))"
  by (cases "h' = h"; cases "h < length (objs s)") (simp_all add: upd_runtime_def spring_def list_update_beyond)

lemma upd_runtime_fields [simp]:
  "springs (upd_runtime h f s) = springs s"
  "raf (upd_runtime h f s) = raf s"
  "lastT (upd_runtime h f s) = lastT s"
  "cfgHeap (upd_runtime h f s) = cfgHeap s"
  "frameCounter (upd_runtime h f s) = frameCounter s"
  "pendingFrames (upd_runtime h f s) = pendingFrames s"
  "trace (upd_runtime h f s) = trace s"
  by (simp_all add: upd_runtime_def)

lemma fire_fields [simp]:
  "objs (fire b cb h s) = objs s"
  "springs (fire b cb h s) = springs s"
  "raf (fire b cb h s) = raf s"
  "lastT (fire b cb h s) = lastT s"
  "cfgHeap (fire b cb h s) = cfgHeap s"
  "frameCounter (fire b cb h s) = frameCounter s"
  "pendingFrames (fire b cb h s) = pendingFrames s"
  by (simp_all add: fire_def)

lemma spring_fire [simp]: "spring (fire b cb h s) h' = spring s h'"
  by (simp add: spring_def)

lemma rt_fire [simp]: "rt (fire b cb h s) h' = rt s h'"
  by (simp add: rt_def)

lemma trace_fire:
  "trace (fire b cb h s) = trace s @ (if b then [cb h (current (rt s h))] else [])"
  by (simp add: fire_def)

lemma stopAnimationFrame_fields [simp]:
  "objs (stopAnimationFrame s) = objs s"
  "springs (stopAnimationFrame s) = springs s"
  "cfgHeap (stopAnimationFrame s) = cfgHeap s"
  "frameCounter (stopAnimationFrame s) = frameCounter s"
  "trace (stopAnimationFrame s) = trace s"
  "raf (stopAnimationFrame s) = None"
  "lastT (stopAnimationFrame s) = - 1"
  by (simp_all add: stopAnimationFrame_def cancelAnimationFrame_def Let_def split: option.splits)

lemma pendingFrames_stopAnimationFrame:
  "pendingFrames (stopAnimationFrame s) =
     (case raf s of None \<Rightarrow> pendingFrames s | Some r \<Rightarrow> removeAll r (pendingFrames s))"
  by (simp add: stopAnimationFrame_def cancelAnimationFrame_def Let_def split: option.splits)

lemma checkIdle_fields [simp]:
  "objs (checkIdle s) = objs s"
  "springs (checkIdle s) = springs s"
  "cfgHeap (checkIdle s) = cfgHeap s"
  "frameCounter (checkIdle s) = frameCounter s"
  "trace (checkIdle s) = trace s"
  by (simp_all add: checkIdle_def)

lemma spring_checkIdle [simp]: "spring (checkIdle s) h = spring s h"
  by (simp add: spring_def)

lemma rt_checkIdle [simp]: "rt (checkIdle s) h = rt s h"
  by (simp add: rt_def)

lemma fold_or: "fold (\<lambda>e acc. acc \<or> P e) xs b = (b \<or> (\<exists>e\<in>set xs. P e))"
  by (induction xs arbitrary: b) auto

lemma hasRunning_iff: "hasRunning s = (\<exists>e\<in>set (springs s). running (rt s (snd e)))"
  by (simp add: hasRunning_def fold_or)

lemma hasRunning_checkIdle [simp]: "hasRunning (checkIdle s) = hasRunning s"
  by (simp add: hasRunning_iff)

lemma checkIdle_idle:
  "\<not> hasRunning s \<Longrightarrow> raf (checkIdle s) = None \<and> lastT (checkIdle s) = - 1"
  by (simp add: checkIdle_def)

lemma checkIdle_busy: "hasRunning s \<Longrightarrow> checkIdle s = s"
  by (simp add: checkIdle_def)


lemma hasRunning_registered: "hasRunning s = (\<exists>h\<in>set (registered s). running (rt s h))"
  by (simp add: hasRunning_iff registered_def)

lemma spring_stopAnimationFrame [simp]: "spring (stopAnimationFrame s) h = spring s h"
  by (simp add: spring_def)

lemma rt_stopAnimationFrame [simp]: "rt (stopAnimationFrame s) h = rt s h"
  by (simp add: rt_def)

lemma hasRunning_stopAnimationFrame [simp]: "hasRunning (stopAnimationFrame s) = hasRunning s"
  by (simp add: hasRunning_iff)

lemma idleChecked_checkIdle':
  assumes "raf s1 = raf s0" "lastT s1 = lastT s0" "pendingFrames s1 = pendingFrames s0"
  shows "idleChecked s0 (checkIdle s1)"
  using assms
  by (simp add: idleChecked_def hasRunning_registered [symmetric] checkIdle_def
      pendingFrames_stopAnimationFrame split: option.splits)

section \<open>C1: the rest check of a sub-step\<close>

text \<open>
  Claim C1, as amended.  Every sub-step of a spring starts with the rest check, before any
  integration; \<open>cfg\<close> is the configuration the loop was given, which \<open>forEachCallback\<close>
  takes from the active configuration.
  \<^item> Near rest and not exactly at rest (\<open>|goal - current| < precision\<close> and
    \<open>|v| < precision\<close>): \<open>current\<close> becomes \<open>goal\<close>, \<open>v\<close> becomes \<open>0\<close>, \<open>onChange\<close>
    and then \<open>onRest\<close> fire (both seeing the snapped position), \<open>running\<close> becomes
    \<open>false\<close>, the idle check runs, and the loop is left.
  \<^item> Exactly at rest and running: \<open>onRest\<close> fires, \<open>running\<close> becomes \<open>false\<close>, the
    idle check runs, and the loop is left; \<open>onChange\<close> does not fire.
  \<^item> Exactly at rest and not running: the loop is left and nothing else happens: no
    callback, no idle check, the state is the one before.
  In the three cases the result does not depend on the number of sub-steps left, and no
  other spring is touched.
\<close>

theorem rest_check_before_integrating:
  assumes "h < length (objs s)"
    and "subSteps (Suc k) cfg deltaTH h s = (completed, s')"
  shows "(nearRest cfg s h \<and> \<not> exactRest s h \<longrightarrow>
            \<not> completed \<and>
            rt s' h = (rt s h)\<lparr>current := goal (rt s h), v := 0, running := False\<rparr> \<and>
            trace s' = trace s
              @ (if onChange (option (spring s h)) then [OnChange h (goal (rt s h))] else [])
              @ (if onRest (option (spring s h)) then [OnRest h (goal (rt s h))] else []) \<and>
            idleChecked s s') \<and>
         (exactRest s h \<and> running (rt s h) \<longrightarrow>
            \<not> completed \<and>
            rt s' h = (rt s h)\<lparr>running := False\<rparr> \<and>
            trace s' = trace s
              @ (if onRest (option (spring s h)) then [OnRest h (current (rt s h))] else []) \<and>
            idleChecked s s') \<and>
         (exactRest s h \<and> \<not> running (rt s h) \<longrightarrow> \<not> completed \<and> s' = s) \<and>
         (nearRest cfg s h \<or> exactRest s h \<longrightarrow>
            subSteps (Suc k) cfg deltaTH h s = subSteps (Suc 0) cfg deltaTH h s \<and>
            (\<forall>h'. h' \<noteq> h \<longrightarrow> spring s' h' = spring s h'))"
proof -
  have near: "?thesis" if "nearRest cfg s h" "\<not> exactRest s h"
    using that assms
    by (auto simp: nearRest_def exactRest_def trace_fire idleChecked_checkIdle')
  have exact: "?thesis" if "exactRest s h"
    using that assms
    by (auto simp: nearRest_def exactRest_def trace_fire idleChecked_checkIdle'
        split: if_splits)
  have "?thesis" if "\<not> nearRest cfg s h" "\<not> exactRest s h"
    using that by simp
  with near exact show ?thesis by blast
qed


section \<open>The example states are reachable\<close>

lemma near_rest_example_reachable:
  "run [Create (plain_option (Some (1 / 200))) [7], Start 0 0 None, Frame 0] initial
   = Some near_rest_example"
  by code_simp

lemma exact_rest_example_reachable:
  "run [Create (plain_option None) [7], Start 0 0 None, Frame 0] initial
   = Some exact_rest_example"
  by code_simp

lemma stale_loop_example_reachable:
  "run [Create (plain_option None) [7], Create (plain_option None) [7, 8],
        Start 1 1 None, Remove 1, Frame 0] initial
   = Some stale_loop_example"
  by code_simp

text \<open>
  Witness of C1: the three cases at the three example states, with three sub-steps left.
\<close>

theorem rest_check_before_integrating_witness:
  "0 < length (objs near_rest_example) \<and>
   nearRest springDefaultConfig near_rest_example 0 \<and> \<not> exactRest near_rest_example 0 \<and>
   rt (snd (subSteps (Suc 2) springDefaultConfig (1 / 6) 0 near_rest_example)) 0
     = \<lparr>goal = 0, current = 0, v = 0, running = False, startConfig = Some 2\<rparr> \<and>
   trace (snd (subSteps (Suc 2) springDefaultConfig (1 / 6) 0 near_rest_example))
     = [OnStart 0 (1 / 200), OnChange 0 (1 / 200), OnChange 0 0, OnRest 0 0] \<and>
   exactRest exact_rest_example 0 \<and> running (rt exact_rest_example 0) \<and>
   trace (snd (subSteps (Suc 2) springDefaultConfig (1 / 6) 0 exact_rest_example))
     = [OnStart 0 0, OnChange 0 0, OnRest 0 0] \<and>
   exactRest stale_loop_example 0 \<and> \<not> running (rt stale_loop_example 0) \<and>
   snd (subSteps (Suc 2) springDefaultConfig (1 / 6) 0 stale_loop_example) = stale_loop_example"
proof -
  have hyps: "0 < length (objs near_rest_example)"
    "nearRest springDefaultConfig near_rest_example 0" "\<not> exactRest near_rest_example 0"
    "0 < length (objs exact_rest_example)"
    "exactRest exact_rest_example 0" "running (rt exact_rest_example 0)"
    "0 < length (objs stale_loop_example)"
    "exactRest stale_loop_example 0" "\<not> running (rt stale_loop_example 0)"
    by (simp_all add: near_rest_example_def exact_rest_example_def stale_loop_example_def
        nearRest_def exactRest_def rt_def spring_def example_spring_def
        springDefaultConfig_def)
  have vals: "rt near_rest_example 0
      = \<lparr>goal = 0, current = 1 / 200, v = 0, running = True, startConfig = Some 2\<rparr>"
    "trace near_rest_example = [OnStart 0 (1 / 200), OnChange 0 (1 / 200)]"
    "option (spring near_rest_example 0) = plain_option (Some (1 / 200))"
    "trace exact_rest_example = [OnStart 0 0, OnChange 0 0]"
    "option (spring exact_rest_example 0) = plain_option None"
    "current (rt exact_rest_example 0) = 0"
    by (simp_all add: near_rest_example_def exact_rest_example_def rt_def spring_def
        example_spring_def)
  note inst = rest_check_before_integrating [OF _ surjective_pairing]
  have near: "rt (snd (subSteps (Suc 2) springDefaultConfig (1 / 6) 0 near_rest_example)) 0
        = \<lparr>goal = 0, current = 0, v = 0, running = False, startConfig = Some 2\<rparr> \<and>
      trace (snd (subSteps (Suc 2) springDefaultConfig (1 / 6) 0 near_rest_example))
        = [OnStart 0 (1 / 200), OnChange 0 (1 / 200), OnChange 0 0, OnRest 0 0]"
    using inst [OF hyps(1), where k = 2 and cfg = springDefaultConfig and deltaTH = "1 / 6",
        THEN conjunct1] hyps(2,3)
    by (simp add: vals plain_option_def)
  have exact: "trace (snd (subSteps (Suc 2) springDefaultConfig (1 / 6) 0 exact_rest_example))
        = [OnStart 0 0, OnChange 0 0, OnRest 0 0]"
    using inst [OF hyps(4), where k = 2 and cfg = springDefaultConfig and deltaTH = "1 / 6",
        THEN conjunct2, THEN conjunct1] hyps(5,6)
    by (simp add: vals plain_option_def)
  have idle: "snd (subSteps (Suc 2) springDefaultConfig (1 / 6) 0 stale_loop_example)
        = stale_loop_example"
    using inst [OF hyps(7), where k = 2 and cfg = springDefaultConfig and deltaTH = "1 / 6",
        THEN conjunct2, THEN conjunct2, THEN conjunct1] hyps(8,9)
    by simp
  from hyps near exact idle show ?thesis by simp
qed

text \<open>
  Counterexample to C1 as stated, where the idle check is part of the exact-rest case
  whether or not the spring was running.  In \<open>stale_loop_example\<close> the only registered
  spring is exactly at rest and not running while a frame request is pending: its
  sub-step returns the state as it is, and that state is not what an idle check leaves
  (\<open>raf\<close> is still set although no registered spring is running).
\<close>

theorem exact_rest_idle_check_counterexample:
  "exactRest stale_loop_example 0 \<and>
   subSteps (Suc 0) (activeConfig stale_loop_example 0) (1 / 6) 0 stale_loop_example
     = (False, stale_loop_example) \<and>
   \<not> idleChecked stale_loop_example stale_loop_example"
  by (simp add: stale_loop_example_def exactRest_def idleChecked_def registered_def rt_def
      spring_def example_spring_def Let_def)


section \<open>C2: one sub-step is one explicit Euler step\<close>

lemma moving_example_reachable:
  "run [Create (plain_option None) [7], Start 0 100 None, Frame 0] initial
   = Some moving_example"
  by code_simp

lemma upd_runtime_twice:
  "upd_runtime h f (upd_runtime h g s) = upd_runtime h (\<lambda>r. f (g r)) s"
  by (cases "h < length (objs s)")
     (simp_all add: upd_runtime_def spring_def rt_def list_update_beyond)

lemma upd_runtime_only_objs: "upd_runtime h f s = s\<lparr>objs := objs (upd_runtime h f s)\<rparr>"
  by (simp add: upd_runtime_def)

lemma forEachCallback_subSteps:
  "forEachCallback deltaT n h s =
     (let r = subSteps (nat n) (activeConfig s h) (Num (deltaT / of_int n)) h s
      in if fst r then fire (onChange (option (spring (snd r) h))) OnChange h (snd r)
         else snd r)"
  by (simp add: forEachCallback_def Let_def split: prod.splits)

lemma upd_runtime_cong:
  "f (rt s h) = g (rt s h) \<Longrightarrow> upd_runtime h f s = upd_runtime h g s"
  by (simp add: upd_runtime_def)

lemma integrate_eq_eulerStep:
  assumes "h < length (objs s)"
  shows "(let f = tension cfg * (goal (rt s h) - current (rt s h));
             a = (f - friction cfg * v (rt s h)) / mass cfg;
             deltaV = (a * dtH) / 1000;
             s1 = upd_runtime h (\<lambda>r. r\<lparr>v := v r + deltaV\<rparr>) s;
             deltaD = (v (rt s1 h) * dtH) / 1000;
             s2 = upd_runtime h (\<lambda>r. r\<lparr>current := current r + deltaD\<rparr>) s1
         in upd_runtime h (\<lambda>r. r\<lparr>running := True\<rparr>) s2)
         = upd_runtime h (eulerStep cfg dtH) s"
  using assms
  by (simp add: Let_def upd_runtime_twice)
     (rule upd_runtime_cong,
      simp add: eulerStep_def spec_newPosition_def spec_newVelocity_def spec_accel_def
        spec_force_def spec_offset_def)

lemma subSteps_integrate:
  assumes "h < length (objs s)" and "\<not> exactRest s h" and "\<not> nearRest cfg s h"
  shows "subSteps (Suc k) cfg dtH h s
         = subSteps k cfg dtH h (upd_runtime h (eulerStep cfg dtH) s)"
proof -
  have "subSteps (Suc k) cfg dtH h s
        = (let f = tension cfg * (goal (rt s h) - current (rt s h));
               a = (f - friction cfg * v (rt s h)) / mass cfg;
               deltaV = (a * dtH) / 1000;
               s1 = upd_runtime h (\<lambda>r. r\<lparr>v := v r + deltaV\<rparr>) s;
               deltaD = (v (rt s1 h) * dtH) / 1000;
               s2 = upd_runtime h (\<lambda>r. r\<lparr>current := current r + deltaD\<rparr>) s1;
               s3 = upd_runtime h (\<lambda>r. r\<lparr>running := True\<rparr>) s2
           in subSteps k cfg dtH h s3)"
    using assms(2,3) by (auto simp: exactRest_def nearRest_def Let_def)
  also have "\<dots> = subSteps k cfg dtH h (upd_runtime h (eulerStep cfg dtH) s)"
    using integrate_eq_eulerStep [OF assms(1), of cfg dtH] by (simp add: Let_def)
  finally show ?thesis .
qed

text \<open>
  Claim C2.  A sub-step in which neither rest condition holds advances the spring by one
  explicit Euler step and nothing else: with \<open>offset = goal - current\<close>,
  \<open>force = tension * offset\<close> and \<open>accel = (force - friction * v) / mass\<close>, the new
  velocity is \<open>v + (accel * dtH) / 1000\<close>, the new position is
  \<open>current + (newVelocity * dtH) / 1000\<close>, and \<open>running\<close> is \<open>true\<close>; the loop goes on
  from that state.  By \<open>forEachCallback_subSteps\<close> the loop is run with
  \<open>dtH = deltaT / hPFrameFactor\<close> and the active configuration.
\<close>

theorem sub_step_is_euler_step:
  assumes "h < length (objs s)"
    and "\<not> exactRest s h" and "\<not> nearRest cfg s h"
    and "subSteps (Suc 0) cfg dtH h s = (completed, s1)"
  shows "completed \<and>
         v (rt s1 h) = v (rt s h) + (spec_accel cfg (rt s h) * dtH) / 1000 \<and>
         current (rt s1 h) = current (rt s h) + (v (rt s1 h) * dtH) / 1000 \<and>
         spec_accel cfg (rt s h)
           = (tension cfg * (goal (rt s h) - current (rt s h)) - friction cfg * v (rt s h))
               / mass cfg \<and>
         running (rt s1 h) \<and>
         rt s1 h = eulerStep cfg dtH (rt s h) \<and>
         s1 = s\<lparr>objs := objs s1\<rparr> \<and>
         (\<forall>h'. h' \<noteq> h \<longrightarrow> spring s1 h' = spring s h') \<and>
         option (spring s1 h) = option (spring s h) \<and>
         key (spring s1 h) = key (spring s h) \<and>
         config (info (spring s1 h)) = config (info (spring s h)) \<and>
         subSteps (Suc k) cfg dtH h s = subSteps k cfg dtH h s1"
proof -
  have "subSteps (Suc 0) cfg dtH h s = (True, upd_runtime h (eulerStep cfg dtH) s)"
    using subSteps_integrate [OF assms(1-3), of 0 dtH] by simp
  with assms(4) have s1: "s1 = upd_runtime h (eulerStep cfg dtH) s" and c: "completed"
    by simp_all
  have step: "subSteps (Suc k) cfg dtH h s = subSteps k cfg dtH h s1"
    unfolding s1 by (rule subSteps_integrate [OF assms(1-3)])
  have only: "s1 = s\<lparr>objs := objs s1\<rparr>"
    unfolding s1 by (rule upd_runtime_only_objs)
  have vals: "rt s1 h = eulerStep cfg dtH (rt s h)"
    using assms(1) by (simp add: s1)
  have others: "\<forall>h'. h' \<noteq> h \<longrightarrow> spring s1 h' = spring s h'"
    "option (spring s1 h) = option (spring s h)"
    "key (spring s1 h) = key (spring s h)"
    "config (info (spring s1 h)) = config (info (spring s h))"
    by (simp_all add: s1)
  have formulas: "v (eulerStep cfg dtH (rt s h)) = v (rt s h) + (spec_accel cfg (rt s h) * dtH) / 1000"
    "current (eulerStep cfg dtH (rt s h))
       = current (rt s h) + (v (eulerStep cfg dtH (rt s h)) * dtH) / 1000"
    "spec_accel cfg (rt s h)
       = (tension cfg * (goal (rt s h) - current (rt s h)) - friction cfg * v (rt s h))
           / mass cfg"
    "running (eulerStep cfg dtH (rt s h))"
    by (simp_all add: eulerStep_def spec_newPosition_def spec_newVelocity_def
        spec_accel_def spec_force_def spec_offset_def)
  from c step only others formulas show ?thesis
    unfolding vals by blast
qed

text \<open>
  Witness of C2: the first sub-step of \<open>1/6\<close> ms of a spring at \<open>0\<close> going to \<open>100\<close>.
\<close>

theorem sub_step_is_euler_step_witness:
  "0 < length (objs moving_example) \<and>
   \<not> exactRest moving_example 0 \<and> \<not> nearRest springDefaultConfig moving_example 0 \<and>
   rt (snd (subSteps (Suc 0) springDefaultConfig (1 / 6) 0 moving_example)) 0
     = \<lparr>goal = 100, current = 17 / 36000, v = 17 / 6, running = True,
        startConfig = Some 2\<rparr>"
proof -
  have hyps: "0 < length (objs moving_example)"
    "\<not> exactRest moving_example 0" "\<not> nearRest springDefaultConfig moving_example 0"
    by (simp_all add: moving_example_def nearRest_def exactRest_def rt_def spring_def
        example_spring_def springDefaultConfig_def)
  have val: "rt moving_example 0
      = \<lparr>goal = 100, current = 0, v = 0, running = True, startConfig = Some 2\<rparr>"
    by (simp add: moving_example_def rt_def spring_def example_spring_def)
  have "rt (snd (subSteps (Suc 0) springDefaultConfig (1 / 6) 0 moving_example)) 0
      = eulerStep springDefaultConfig (1 / 6) (rt moving_example 0)"
    using sub_step_is_euler_step [OF hyps surjective_pairing] by blast
  then show ?thesis
    using hyps
    by (simp add: val eulerStep_def spec_newPosition_def spec_newVelocity_def
        spec_accel_def spec_force_def spec_offset_def springDefaultConfig_def)
qed


section \<open>C3: \<open>set\<close> teleports the spring\<close>

lemma set_value_eq:
  "set_value h x s =
     checkIdle (fire (\<not> strict_eq x (current (rt s h)) \<and> onChange (option (spring s h))) OnChange h
       (upd_runtime h (\<lambda>r. r\<lparr>goal := x, current := x, v := 0, running := False\<rparr>) s))"
  by (simp add: set_value_def Let_def upd_runtime_twice fire_def)




section \<open>C8: the lag guard\<close>

lemma round_zero_frames: "round (0 / frameResolution) = 0"
  by simp

text \<open>
  Claim C8.  A tick whose elapsed time exceeds 100 ms (there is a baseline, and \<open>t\<close> is
  more than 100 after it) does no physics: the springs, the registry, the configurations
  and the trace are as before, so no callback fired; only the next frame was requested
  and \<open>lastT\<close> is back to \<open>-1\<close>.  The tick after it, at any time \<open>t'\<close>, therefore takes
  \<open>t'\<close> as its baseline and runs with \<open>deltaT = 0\<close> and no sub-step.
\<close>

theorem lag_guard_discards_tick:
  assumes "\<not> lastT s < 0" and "t - lastT s > 100"
  shows "onFrame t s
           = s\<lparr>raf := Some (Suc (frameCounter s)), lastT := - 1,
                frameCounter := Suc (frameCounter s),
                pendingFrames := pendingFrames s @ [Suc (frameCounter s)]\<rparr> \<and>
         objs (onFrame t s) = objs s \<and> springs (onFrame t s) = springs s \<and>
         cfgHeap (onFrame t s) = cfgHeap s \<and> trace (onFrame t s) = trace s \<and>
         lastT (onFrame t s) = - 1 \<and>
         onFrame t' (onFrame t s)
           = fold (forEachCallback 0 0) (map snd (springs s))
               (s\<lparr>frameCounter := Suc (Suc (frameCounter s)),
                   pendingFrames := pendingFrames s @ [Suc (frameCounter s),
                                                        Suc (Suc (frameCounter s))],
                   raf := Some (Suc (Suc (frameCounter s))), lastT := t'\<rparr>)"
proof -
  have 1: "onFrame t s
      = s\<lparr>raf := Some (Suc (frameCounter s)), lastT := - 1,
           frameCounter := Suc (frameCounter s),
           pendingFrames := pendingFrames s @ [Suc (frameCounter s)]\<rparr>"
    using assms by (simp add: onFrame_def requestAnimationFrame_def Let_def)
  have 2: "onFrame t' (onFrame t s)
      = fold (forEachCallback 0 0) (map snd (springs s))
          (s\<lparr>frameCounter := Suc (Suc (frameCounter s)),
              pendingFrames := pendingFrames s @ [Suc (frameCounter s),
                                                   Suc (Suc (frameCounter s))],
              raf := Some (Suc (Suc (frameCounter s))), lastT := t'\<rparr>)"
    unfolding 1 by (simp add: onFrame_def requestAnimationFrame_def Let_def)
  show ?thesis
    unfolding 2 unfolding 1 by simp
qed

text \<open>
  Witness of C8: the moving spring, last seen at time \<open>0\<close>, with a tick at \<open>150\<close> and the
  next one at \<open>166\<close>.
\<close>

theorem lag_guard_discards_tick_witness:
  "\<not> lastT moving_example < 0 \<and> 150 - lastT moving_example > 100 \<and>
   objs (onFrame 150 moving_example) = objs moving_example \<and>
   trace (onFrame 150 moving_example) = [OnStart 0 0, OnChange 0 0] \<and>
   lastT (onFrame 150 moving_example) = - 1 \<and>
   lastT (onFrame 166 (onFrame 150 moving_example)) = 166 \<and>
   rt (onFrame 166 (onFrame 150 moving_example)) 0
     = \<lparr>goal = 100, current = 0, v = 0, running = True, startConfig = Some 2\<rparr>"
proof -
  have hyps: "\<not> lastT moving_example < 0" "150 - lastT moving_example > 100"
    by (simp_all add: moving_example_def)
  have vals: "trace moving_example = [OnStart 0 0, OnChange 0 0]"
    "springs moving_example = [(7, 0)]"
    by (simp_all add: moving_example_def)
  have rt0: "rt moving_example 0
      = \<lparr>goal = 100, current = 0, v = 0, running = True, startConfig = Some 2\<rparr>"
    by (simp add: moving_example_def rt_def spring_def example_spring_def)
  from lag_guard_discards_tick [OF hyps, of 166, THEN conjunct2] hyps show ?thesis
    by (simp add: vals forEachCallback_def rt_def spring_def rt0 [unfolded rt_def spring_def])
qed


section \<open>What a tick preserves\<close>

text \<open>
  A property kept by the three ways the sub-step loop of spring \<open>h\<close> changes the state
  (an update of the runtime of \<open>h\<close> that leaves \<open>startConfig\<close> alone, a call of
  \<open>onChange\<close> or \<open>onRest\<close> of \<open>h\<close>, an idle check) is kept by the loop, by the
  callback of \<open>forEach\<close>, and by the whole iteration.
\<close>

lemma subSteps_preserves:
  assumes "P s"
    and upd: "\<And>s f. P s \<Longrightarrow> (\<And>r. startConfig (f r) = startConfig r) \<Longrightarrow> P (upd_runtime h f s)"
    and fire: "\<And>s b cb. cb = OnChange \<or> cb = OnRest \<Longrightarrow> P s \<Longrightarrow> P (fire b cb h s)"
    and idle: "\<And>s. P s \<Longrightarrow> P (checkIdle s)"
  shows "P (snd (subSteps k cfg d h s))"
  using assms(1)
proof (induction k arbitrary: s)
  case 0
  then show ?case by simp
next
  case (Suc k)
  show ?case
  proof (cases "exactRest s h")
    case True
    with Suc.prems show ?thesis
      by (auto simp: exactRest_def intro!: idle upd fire)
  next
    case False
    show ?thesis
    proof (cases "nearRest cfg s h")
      case True
      with False Suc.prems show ?thesis
        by (auto simp: exactRest_def nearRest_def intro!: idle upd fire)
    next
      case near: False
      have "P (upd_runtime h (\<lambda>r. r\<lparr>running := True\<rparr>)
               (upd_runtime h (\<lambda>r. r\<lparr>current := current r + x\<rparr>)
                 (upd_runtime h (\<lambda>r. r\<lparr>v := v r + y\<rparr>) s)))" for x y
        by (intro upd Suc.prems) simp_all
      with False near Suc.IH show ?thesis
        by (auto simp: exactRest_def nearRest_def Let_def)
    qed
  qed
qed

lemma forEachCallback_preserves:
  assumes "P s"
    and upd: "\<And>s f. P s \<Longrightarrow> (\<And>r. startConfig (f r) = startConfig r) \<Longrightarrow> P (upd_runtime h f s)"
    and fire: "\<And>s b cb. cb = OnChange \<or> cb = OnRest \<Longrightarrow> P s \<Longrightarrow> P (fire b cb h s)"
    and idle: "\<And>s. P s \<Longrightarrow> P (checkIdle s)"
  shows "P (forEachCallback deltaT n h s)"
proof -
  have "P (snd (subSteps k cfg d h s))" for k cfg d
    using assms by (rule subSteps_preserves)
  then show ?thesis
    by (auto simp: forEachCallback_subSteps Let_def intro: fire)
qed

lemma fold_forEachCallback_preserves:
  assumes "P s"
    and upd: "\<And>s f h. h \<in> set hs \<Longrightarrow> P s \<Longrightarrow> (\<And>r. startConfig (f r) = startConfig r)
                \<Longrightarrow> P (upd_runtime h f s)"
    and fire: "\<And>s b cb h. h \<in> set hs \<Longrightarrow> cb = OnChange \<or> cb = OnRest \<Longrightarrow> P s
                \<Longrightarrow> P (fire b cb h s)"
    and idle: "\<And>s. P s \<Longrightarrow> P (checkIdle s)"
  shows "P (fold (forEachCallback deltaT n) hs s)"
  using assms
proof (induction hs arbitrary: s)
  case Nil
  then show ?case by simp
next
  case (Cons h hs)
  have "P (forEachCallback deltaT n h s)"
    by (rule forEachCallback_preserves) (auto intro: Cons.prems)
  then show ?case
    by (auto intro!: Cons.IH intro: Cons.prems)
qed


section \<open>Reachable states are well formed\<close>


lemma onFrame_eq:
  "onFrame t s =
     (let s4 = s\<lparr>frameCounter := Suc (frameCounter s),
                  pendingFrames := pendingFrames s @ [Suc (frameCounter s)],
                  raf := Some (Suc (frameCounter s)), lastT := t\<rparr>;
          deltaT = (if lastT s < 0 then 0 else t - lastT s)
      in if deltaT > 100 then s4\<lparr>lastT := - 1\<rparr>
         else fold (forEachCallback deltaT (round (deltaT / frameResolution)))
                (map snd (springs s)) s4)"
  by (simp add: onFrame_def requestAnimationFrame_def Let_def)


lemma spring_cfgHeap_update [simp]: "spring (s\<lparr>cfgHeap := c\<rparr>) h = spring s h"
  by (simp add: spring_def)

lemma rt_cfgHeap_update [simp]: "rt (s\<lparr>cfgHeap := c\<rparr>) h = rt s h"
  by (simp add: rt_def)

lemma cfgHeap_update_upd_runtime:
  "(upd_runtime h f s)\<lparr>cfgHeap := c\<rparr> = upd_runtime h f (s\<lparr>cfgHeap := c\<rparr>)"
  by (simp add: upd_runtime_def)

lemma start_eq:
  "start h x cfg s =
     (let base = cfgHeap s ! config (info (spring s h));
          new = spread_opt (spread springDefaultConfig (all_fields base)) cfg
      in startAnimationFrame
           (fire (onStart (option (spring s h))) OnStart h
             (upd_runtime h
                (\<lambda>r. r\<lparr>goal := x, running := True,
                        startConfig := Some (Suc (length (cfgHeap s))), v := nullish (velocity new) 0\<rparr>)
                (s\<lparr>cfgHeap := cfgHeap s @ [base, new]\<rparr>))))"
proof -
  define base where "base = cfgHeap s ! config (info (spring s h))"
  define new where "new = spread_opt (spread springDefaultConfig (all_fields base)) cfg"
  define s2 where "s2 = upd_runtime h (\<lambda>r. r\<lparr>running := True\<rparr>)
                          (upd_runtime h (\<lambda>r. r\<lparr>goal := x\<rparr>) s)"
  have g: "get_config h s2 = (length (cfgHeap s), s2\<lparr>cfgHeap := cfgHeap s @ [base]\<rparr>)"
    by (simp add: get_config_def alloc_def s2_def base_def)
  have a: "alloc new (s2\<lparr>cfgHeap := cfgHeap s @ [base]\<rparr>)
      = (Suc (length (cfgHeap s)), s2\<lparr>cfgHeap := cfgHeap s @ [base, new]\<rparr>)"
    by (simp add: alloc_def)
  have "start h x cfg s
      = startAnimationFrame
          (fire (onStart (option (spring s h))) OnStart h
            (upd_runtime h (\<lambda>r. r\<lparr>v := nullish (velocity new) 0\<rparr>)
              (upd_runtime h (\<lambda>r. r\<lparr>startConfig := Some (Suc (length (cfgHeap s)))\<rparr>)
                (s2\<lparr>cfgHeap := cfgHeap s @ [base, new]\<rparr>))))"
    unfolding start_def s2_def [symmetric] Let_def g prod.case
    by (simp add: base_def [symmetric] new_def [symmetric] a nth_append) (simp add: s2_def)
  also have "\<dots> = startAnimationFrame
          (fire (onStart (option (spring s h))) OnStart h
            (upd_runtime h
                (\<lambda>r. r\<lparr>goal := x, running := True,
                        startConfig := Some (Suc (length (cfgHeap s))), v := nullish (velocity new) 0\<rparr>)
                (s\<lparr>cfgHeap := cfgHeap s @ [base, new]\<rparr>)))"
    by (simp add: s2_def cfgHeap_update_upd_runtime upd_runtime_twice)
  finally show ?thesis
    by (simp add: Let_def base_def new_def)
qed


lemma reg_ok_cong: "objs s' = objs s \<Longrightarrow> springs s' = springs s \<Longrightarrow> reg_ok s' = reg_ok s"
  by (simp add: reg_ok_def spring_def)

lemma cfg_ok_cong: "objs s' = objs s \<Longrightarrow> cfgHeap s' = cfgHeap s \<Longrightarrow> cfg_ok s' = cfg_ok s"
  by (simp add: cfg_ok_def split: option.splits)

lemma sched_ok_cong:
  "raf s' = raf s \<Longrightarrow> pendingFrames s' = pendingFrames s \<Longrightarrow> frameCounter s' = frameCounter s
   \<Longrightarrow> sched_ok s' = sched_ok s"
  by (simp add: sched_ok_def split: option.splits)

lemma reg_ok_upd_runtime [simp]: "reg_ok (upd_runtime h f s) = reg_ok s"
  by (simp add: reg_ok_def)

lemma reg_ok_fire [simp]: "reg_ok (fire b cb h s) = reg_ok s"
  by (rule reg_ok_cong) simp_all

lemma reg_ok_checkIdle [simp]: "reg_ok (checkIdle s) = reg_ok s"
  by (rule reg_ok_cong) simp_all

lemma cfg_ok_iff:
  "cfg_ok s \<longleftrightarrow>
     (\<forall>sp \<in> set (objs s). config (info sp) < length (cfgHeap s) \<and>
        (\<forall>a. startConfig (runtime (info sp)) = Some a \<longrightarrow> a < length (cfgHeap s)))"
  by (auto simp: cfg_ok_def split: option.splits)

lemma cfg_ok_upd_runtime_gen:
  assumes ok: "cfg_ok s"
    and f: "\<And>a. startConfig (f (rt s h)) = Some a \<Longrightarrow> a < length (cfgHeap s)"
  shows "cfg_ok (upd_runtime h f s)"
  unfolding cfg_ok_iff
proof
  fix sp
  assume "sp \<in> set (objs (upd_runtime h f s))"
  then have "sp \<in> set ((objs s)[h := (spring s h)\<lparr>info := (info (spring s h))
      \<lparr>runtime := f (rt s h)\<rparr>\<rparr>])"
    by (simp add: upd_runtime_def)
  then consider (new) "h < length (objs s)"
      "sp = (spring s h)\<lparr>info := (info (spring s h))\<lparr>runtime := f (rt s h)\<rparr>\<rparr>"
    | (old) "sp \<in> set (objs s)"
    using set_update_subset_insert [of "objs s" h] 
    by (cases "h < length (objs s)") (auto simp: list_update_beyond)
  then show "config (info sp) < length (cfgHeap (upd_runtime h f s)) \<and>
      (\<forall>a. startConfig (runtime (info sp)) = Some a
         \<longrightarrow> a < length (cfgHeap (upd_runtime h f s)))"
  proof cases
    case new
    then have "spring s h \<in> set (objs s)"
      by (simp add: spring_def)
    with ok have "config (info (spring s h)) < length (cfgHeap s)"
      by (simp add: cfg_ok_iff)
    with new(2) f show ?thesis
      by simp
  next
    case old
    with ok show ?thesis
      by (simp add: cfg_ok_iff)
  qed
qed

lemma cfg_ok_startConfig:
  assumes "cfg_ok s" and "h < length (objs s)" and "startConfig (rt s h) = Some a"
  shows "a < length (cfgHeap s)"
proof -
  have "spring s h \<in> set (objs s)"
    using assms(2) by (simp add: spring_def)
  with assms(1,3) show ?thesis
    by (simp add: cfg_ok_iff rt_def)
qed

lemma cfg_ok_config:
  assumes "cfg_ok s" and "h < length (objs s)"
  shows "config (info (spring s h)) < length (cfgHeap s)"
proof -
  have "spring s h \<in> set (objs s)"
    using assms(2) by (simp add: spring_def)
  with assms(1) show ?thesis
    by (simp add: cfg_ok_iff)
qed

lemma cfg_ok_upd_runtime:
  assumes ok: "cfg_ok s" and f: "\<And>r. startConfig (f r) = startConfig r"
  shows "cfg_ok (upd_runtime h f s)"
proof (cases "h < length (objs s)")
  case True
  show ?thesis
    by (rule cfg_ok_upd_runtime_gen [OF ok]) (simp add: f cfg_ok_startConfig [OF ok True])
next
  case False
  with ok show ?thesis
    by (simp add: upd_runtime_def list_update_beyond cfg_ok_iff)
qed

lemma cfg_ok_grow: "cfg_ok s \<Longrightarrow> cfg_ok (s\<lparr>cfgHeap := cfgHeap s @ cs\<rparr>)"
  by (fastforce simp: cfg_ok_iff)

lemma cfg_ok_fire [simp]: "cfg_ok (fire b cb h s) = cfg_ok s"
  by (rule cfg_ok_cong) simp_all

lemma cfg_ok_checkIdle [simp]: "cfg_ok (checkIdle s) = cfg_ok s"
  by (rule cfg_ok_cong) simp_all

lemma sched_ok_upd_runtime [simp]: "sched_ok (upd_runtime h f s) = sched_ok s"
  by (rule sched_ok_cong) simp_all

lemma sched_ok_fire [simp]: "sched_ok (fire b cb h s) = sched_ok s"
  by (rule sched_ok_cong) simp_all

lemma sched_ok_stopAnimationFrame: "sched_ok s \<Longrightarrow> sched_ok (stopAnimationFrame s)"
  by (simp add: sched_ok_def pendingFrames_stopAnimationFrame split: option.splits)

lemma sched_ok_checkIdle: "sched_ok s \<Longrightarrow> sched_ok (checkIdle s)"
  by (simp add: checkIdle_def sched_ok_stopAnimationFrame)

lemma sched_ok_startAnimationFrame: "sched_ok s \<Longrightarrow> sched_ok (startAnimationFrame s)"
  by (auto simp: startAnimationFrame_def requestAnimationFrame_def sched_ok_def truthy_def
      Let_def split: option.splits)

lemma startAnimationFrame_fields [simp]:
  "objs (startAnimationFrame s) = objs s"
  "springs (startAnimationFrame s) = springs s"
  "cfgHeap (startAnimationFrame s) = cfgHeap s"
  "trace (startAnimationFrame s) = trace s"
  "lastT (startAnimationFrame s) = lastT s"
  by (simp_all add: startAnimationFrame_def requestAnimationFrame_def Let_def)

lemma spring_startAnimationFrame [simp]: "spring (startAnimationFrame s) h = spring s h"
  by (simp add: spring_def)

lemma rt_startAnimationFrame [simp]: "rt (startAnimationFrame s) h = rt s h"
  by (simp add: rt_def)

lemma wf_onFrame:
  assumes "reg_ok s" and "cfg_ok s" and "pendingFrames s = []"
  shows "wf (onFrame t s)"
proof -
  let ?s4 = "\<lambda>u. s\<lparr>frameCounter := Suc (frameCounter s),
                  pendingFrames := pendingFrames s @ [Suc (frameCounter s)],
                  raf := Some (Suc (frameCounter s)), lastT := u\<rparr>"
  have "reg_ok (?s4 u) = reg_ok s" "cfg_ok (?s4 u) = cfg_ok s" for u
    by (rule reg_ok_cong cfg_ok_cong; simp)+
  moreover have "sched_ok (?s4 u)" for u
    by (simp add: sched_ok_def assms(3))
  ultimately have s4: "wf (?s4 u)" for u
    using assms(1,2) by (simp add: wf_def)
  have "wf (fold (forEachCallback d n) hs (?s4 u))" for d n hs u
  proof (rule fold_forEachCallback_preserves [where P = wf])
    show "wf (?s4 u)" by (rule s4)
    show "wf (upd_runtime h f s)" if "wf s" "\<And>r. startConfig (f r) = startConfig r"
      for s h and f :: "Runtime \<Rightarrow> Runtime"
      using that by (simp add: wf_def cfg_ok_upd_runtime)
    show "wf (fire b cb h s)" if "wf s" for s b cb h
      using that by (simp add: wf_def)
    show "wf (checkIdle s)" if "wf s" for s
      using that by (simp add: wf_def sched_ok_checkIdle)
  qed
  with s4 show ?thesis
    by (simp add: onFrame_eq Let_def)
qed


lemma generateId_fresh: "generateId ks draws = Some k \<Longrightarrow> k \<notin> set ks"
  by (induction draws) (auto split: if_splits)

lemma AList_update_fresh: "k \<notin> fst ` set al \<Longrightarrow> AList.update k x al = al @ [(k, x)]"
  by (induction al) auto

lemma controller_eq:
  assumes "controller opt draws s = Some (h, s')"
  shows "\<exists>k. k \<notin> fst ` set (springs s) \<and> h = length (objs s) \<and>
           s' = s\<lparr>cfgHeap := cfgHeap s @ [spread_opt springDefaultConfig (opt_config opt)],
                  objs := objs s @
                    [\<lparr>key = k, option = opt,
                      info = \<lparr>runtime = \<lparr>goal = 0,
                                 current = nullish (read_field (opt_value opt)) 0,
                                 v = 0, running = False, startConfig = None\<rparr>,
                               config = length (cfgHeap s)\<rparr>\<rparr>],
                  springs := springs s @ [(k, length (objs s))]\<rparr>"
proof -
  from assms obtain k where k: "generateId (map fst (springs s)) draws = Some k"
    by (auto simp: controller_def split: option.splits)
  then have fresh: "k \<notin> fst ` set (springs s)"
    using generateId_fresh [OF k] by simp
  with assms k show ?thesis
    by (auto simp: controller_def alloc_def Let_def AList_update_fresh)
qed

lemma wf_controller:
  assumes "wf s" and "controller opt draws s = Some (h, s')"
  shows "wf s'"
proof -
  from controller_eq [OF assms(2)] obtain k where
    fresh: "k \<notin> fst ` set (springs s)" and
    s': "s' = s\<lparr>cfgHeap := cfgHeap s @ [spread_opt springDefaultConfig (opt_config opt)],
                  objs := objs s @
                    [\<lparr>key = k, option = opt,
                      info = \<lparr>runtime = \<lparr>goal = 0,
                                 current = nullish (read_field (opt_value opt)) 0,
                                 v = 0, running = False, startConfig = None\<rparr>,
                               config = length (cfgHeap s)\<rparr>\<rparr>],
                  springs := springs s @ [(k, length (objs s))]\<rparr>"
    by blast
  have "reg_ok s'"
    using assms(1) fresh unfolding s'
    by (auto simp: wf_def reg_ok_def spring_def nth_append)
  moreover have "cfg_ok s'"
    using assms(1) unfolding s'
    by (fastforce simp: wf_def cfg_ok_iff)
  moreover have "sched_ok s' = sched_ok s"
    unfolding s' by (rule sched_ok_cong) simp_all
  ultimately show ?thesis
    using assms(1) by (simp add: wf_def)
qed

lemma reg_ok_startAnimationFrame [simp]: "reg_ok (startAnimationFrame s) = reg_ok s"
  by (rule reg_ok_cong) simp_all

lemma cfg_ok_startAnimationFrame [simp]: "cfg_ok (startAnimationFrame s) = cfg_ok s"
  by (rule cfg_ok_cong) simp_all

lemma wf_start:
  assumes "wf s"
  shows "wf (start h x cfg s)"
proof -
  let ?base = "cfgHeap s ! config (info (spring s h))"
  let ?new = "spread_opt (spread springDefaultConfig (all_fields ?base)) cfg"
  let ?s1 = "s\<lparr>cfgHeap := cfgHeap s @ [?base, ?new]\<rparr>"
  let ?f = "\<lambda>r. r\<lparr>goal := x, running := True,
                 startConfig := Some (Suc (length (cfgHeap s))), v := nullish (velocity ?new) 0\<rparr>"
  have "reg_ok ?s1 = reg_ok s" "sched_ok ?s1 = sched_ok s"
    by (rule reg_ok_cong sched_ok_cong; simp)+
  moreover have "cfg_ok (upd_runtime h ?f ?s1)"
    by (rule cfg_ok_upd_runtime_gen [OF cfg_ok_grow]) (use assms in \<open>simp_all add: wf_def\<close>)
  ultimately show ?thesis
    using assms
    by (simp add: start_eq Let_def wf_def sched_ok_startAnimationFrame)
qed

lemma wf_set_value: "wf s \<Longrightarrow> wf (set_value h x s)"
  by (simp add: set_value_eq wf_def cfg_ok_upd_runtime sched_ok_checkIdle)

lemma remove_fields [simp]:
  "objs (remove h s) = objs s"
  "raf (remove h s) = raf s"
  "lastT (remove h s) = lastT s"
  "cfgHeap (remove h s) = cfgHeap s"
  "frameCounter (remove h s) = frameCounter s"
  "pendingFrames (remove h s) = pendingFrames s"
  "trace (remove h s) = trace s"
  by (simp_all add: remove_def)

lemma spring_remove [simp]: "spring (remove h s) g = spring s g"
  by (simp add: spring_def)

lemma rt_remove [simp]: "rt (remove h s) g = rt s g"
  by (simp add: rt_def)

lemma springs_remove:
  "set (springs (remove h s)) = {e \<in> set (springs s). fst e \<noteq> key (spring s h)}"
  by (auto simp: remove_def AList.delete_eq)

lemma wf_remove:
  assumes "wf s"
  shows "wf (remove h s)"
proof -
  have reg: "reg_ok s"
    using assms by (simp add: wf_def)
  have "reg_ok (remove h s)"
    unfolding reg_ok_def
  proof (intro conjI ballI)
    fix e
    assume "e \<in> set (springs (remove h s))"
    then have "e \<in> set (springs s)"
      by (simp add: springs_remove)
    with reg show "snd e < length (objs (remove h s))"
      and "key (spring (remove h s) (snd e)) = fst e"
      by (simp_all add: reg_ok_def)
  next
    show "distinct (map fst (springs (remove h s)))"
      using reg by (simp add: reg_ok_def remove_def AList.distinct_delete)
  qed
  moreover have "cfg_ok (remove h s) = cfg_ok s" "sched_ok (remove h s) = sched_ok s"
    by (rule cfg_ok_cong sched_ok_cong; simp)+
  ultimately show ?thesis
    using assms by (simp add: wf_def)
qed

lemma wf_exec:
  assumes "wf s" and "exec a s = Some s'"
  shows "wf s'"
proof (cases a)
  case (Create opt draws)
  with assms show ?thesis
    by (auto intro: wf_controller)
next
  case (Frame t)
  show ?thesis
  proof (cases "pendingFrames s")
    case Nil
    with assms Frame show ?thesis by simp
  next
    case (Cons f fs)
    with assms(1) have "fs = []"
      by (auto simp: wf_def sched_ok_def split: option.splits)
    moreover have "reg_ok (s\<lparr>pendingFrames := []\<rparr>) = reg_ok s"
      "cfg_ok (s\<lparr>pendingFrames := []\<rparr>) = cfg_ok s"
      by (rule reg_ok_cong cfg_ok_cong; simp)+
    ultimately have "wf (onFrame t (s\<lparr>pendingFrames := fs\<rparr>))"
      using assms(1) by (intro wf_onFrame) (simp_all add: wf_def)
    with assms(2) Frame Cons show ?thesis by simp
  qed
qed (use assms in \<open>auto simp: wf_start wf_set_value wf_remove pause_def split: if_splits\<close>)

lemma wf_initial: "wf initial"
  by (simp add: wf_def reg_ok_def cfg_ok_def sched_ok_def initial_def)

lemma wf_run: "wf s \<Longrightarrow> run as s = Some s' \<Longrightarrow> wf s'"
  by (induction as arbitrary: s) (auto split: option.splits dest: wf_exec)


section \<open>C4: \<open>start\<close>\<close>

lemma spread_all_fields [simp]: "spread base (all_fields c) = c"
  by (simp add: spread_def all_fields_def)

lemma wf_moving_example: "wf moving_example"
  by (simp add: wf_def reg_ok_def cfg_ok_def sched_ok_def moving_example_def spring_def
      example_spring_def)

text \<open>
  Counterexample to C4 as stated, where \<open>v\<close> becomes \<open>activeConfig.velocity\<close>: a spring
  is created, started toward \<open>100\<close>, and after the first tick started again with
  \<open>start(50, {velocity: undefined})\<close>.  The field of the override wins the merge, so the
  \<open>velocity\<close> of the active configuration is \<open>undefined\<close>, and \<open>?? 0\<close> makes \<open>v\<close>
  zero.
\<close>

theorem start_undefined_velocity_counterexample:
  "map_option (\<lambda>s. (v (rt s 0), velocity (activeConfig s 0)))
     (run [Create (plain_option None) [7], Start 0 100 None, Frame 0,
           Start 0 50 (Some undefined_velocity_override)] initial)
   = Some (0, Undefined)"
  by code_simp

text \<open>
  Claim C4, as amended.  \<open>start(x, cfg)\<close> sets \<open>goal = x\<close> and \<open>running = true\<close> and
  leaves \<open>current\<close>; the active configuration becomes the defaults, overridden by the
  base configuration, overridden by the fields \<open>cfg\<close> has (the first two together are
  the base configuration, which has every field); \<open>v\<close> becomes the \<open>velocity\<close> of that
  configuration, whatever it was, or \<open>0\<close> when that \<open>velocity\<close> is \<open>undefined\<close>;
  \<open>onStart\<close> is called once; and afterwards a frame request is pending, the one that
  was pending before if there was one.
\<close>

theorem start_sets_up_run:
  assumes "wf s" and "h < length (objs s)"
  shows "goal (rt (start h x cfg s) h) = x \<and>
         running (rt (start h x cfg s) h) \<and>
         current (rt (start h x cfg s) h) = current (rt s h) \<and>
         activeConfig (start h x cfg s) h
           = spread_opt (spread springDefaultConfig
               (all_fields (cfgHeap s ! config (info (spring s h))))) cfg \<and>
         spread springDefaultConfig (all_fields (cfgHeap s ! config (info (spring s h))))
           = cfgHeap s ! config (info (spring s h)) \<and>
         v (rt (start h x cfg s) h)
           = (if velocity (activeConfig (start h x cfg s) h) = Undefined then 0
              else velocity (activeConfig (start h x cfg s) h)) \<and>
         trace (start h x cfg s)
           = trace s @ (if onStart (option (spring s h))
                        then [OnStart h (current (rt s h))] else []) \<and>
         raf (start h x cfg s) \<noteq> None \<and> loopActive (start h x cfg s) \<and>
         (raf s \<noteq> None \<longrightarrow> raf (start h x cfg s) = raf s \<and>
            pendingFrames (start h x cfg s) = pendingFrames s) \<and>
         (\<forall>g. g \<noteq> h \<longrightarrow> spring (start h x cfg s) g = spring s g)"
proof -
  let ?base = "cfgHeap s ! config (info (spring s h))"
  let ?new = "spread_opt (spread springDefaultConfig (all_fields ?base)) cfg"
  let ?f = "\<lambda>r. r\<lparr>goal := x, running := True,
                 startConfig := Some (Suc (length (cfgHeap s))), v := nullish (velocity ?new) 0\<rparr>"
  let ?s1 = "upd_runtime h ?f (s\<lparr>cfgHeap := cfgHeap s @ [?base, ?new]\<rparr>)"
  let ?s2 = "fire (onStart (option (spring s h))) OnStart h ?s1"
  have eq: "start h x cfg s = startAnimationFrame ?s2"
    by (simp add: start_eq Let_def)
  have r: "rt (start h x cfg s) h = ?f (rt s h)"
    using assms(2) by (simp add: eq)
  have heap: "cfgHeap (start h x cfg s) = cfgHeap s @ [?base, ?new]"
    by (simp add: eq)
  have active: "activeConfig (start h x cfg s) h = ?new"
    by (simp add: activeConfig_def r heap nth_append)
  have tr: "trace (start h x cfg s)
      = trace s @ (if onStart (option (spring s h)) then [OnStart h (current (rt s h))] else [])"
    using assms(2) by (simp add: eq trace_fire)
  have sched: "sched_ok s"
    using assms(1) by (simp add: wf_def)
  have loop: "raf (startAnimationFrame ?s2) \<noteq> None \<and> loopActive (startAnimationFrame ?s2) \<and>
      (raf s \<noteq> None \<longrightarrow> raf (startAnimationFrame ?s2) = raf s \<and>
         pendingFrames (startAnimationFrame ?s2) = pendingFrames s)"
    using sched
    by (auto simp: startAnimationFrame_def requestAnimationFrame_def truthy_def Let_def
        sched_ok_def loopActive_def split: option.splits)
  have others: "\<forall>g. g \<noteq> h \<longrightarrow> spring (start h x cfg s) g = spring s g"
    by (simp add: eq)
  from loop others show ?thesis
    unfolding active tr unfolding eq [symmetric] by (simp add: r nullish_def)
qed

text \<open>
  Witness of C4: the moving spring (velocity \<open>0\<close>, default configuration) restarted
  toward \<open>50\<close> with \<open>friction\<close> 10 and \<open>velocity\<close> 3, and restarted with
  \<open>{velocity: undefined}\<close>.
\<close>

theorem start_sets_up_run_witness:
  "wf moving_example \<and> 0 < length (objs moving_example) \<and>
   rt (start 0 50 (Some example_override) moving_example) 0
     = \<lparr>goal = 50, current = 0, v = 3, running = True, startConfig = Some 4\<rparr> \<and>
   activeConfig (start 0 50 (Some example_override) moving_example) 0
     = \<lparr>mass = 1, tension = 170, friction = 10, precision = 1 / 100, velocity = 3,
        clamp = Some False\<rparr> \<and>
   trace (start 0 50 (Some example_override) moving_example)
     = [OnStart 0 0, OnChange 0 0, OnStart 0 0] \<and>
   raf (start 0 50 (Some example_override) moving_example) = Some 2 \<and>
   pendingFrames (start 0 50 (Some example_override) moving_example) = [2] \<and>
   velocity (activeConfig (start 0 50 (Some undefined_velocity_override) moving_example) 0)
     = Undefined \<and>
   v (rt (start 0 50 (Some undefined_velocity_override) moving_example) 0) = 0"
proof -
  have hyps: "wf moving_example" "0 < length (objs moving_example)"
    by (simp_all add: wf_moving_example) (simp add: moving_example_def)
  have r: "rt (start 0 50 (Some example_override) moving_example) 0
      = \<lparr>goal = 50, current = 0, v = 3, running = True, startConfig = Some 4\<rparr>"
    by code_simp
  have vals: "cfgHeap moving_example ! config (info (spring moving_example 0))
      = springDefaultConfig"
    "trace moving_example = [OnStart 0 0, OnChange 0 0]"
    "option (spring moving_example 0) = plain_option None"
    "current (rt moving_example 0) = 0"
    "raf moving_example = Some 2" "pendingFrames moving_example = [2]"
    by (simp_all add: moving_example_def rt_def spring_def example_spring_def)
  have new: "spread_opt (spread springDefaultConfig (all_fields springDefaultConfig))
        (Some example_override)
      = \<lparr>mass = 1, tension = 170, friction = 10, precision = 1 / 100, velocity = 3,
         clamp = Some False\<rparr>"
    by code_simp
  note inst = start_sets_up_run [OF hyps, of 50 "Some example_override"]
  have ac: "activeConfig (start 0 50 (Some example_override) moving_example) 0
     = \<lparr>mass = 1, tension = 170, friction = 10, precision = 1 / 100, velocity = 3,
        clamp = Some False\<rparr>"
    using inst [THEN conjunct2, THEN conjunct2, THEN conjunct2, THEN conjunct1]
    by (simp only: vals new)
  have onStart: "onStart (plain_option None)"
    by (simp add: plain_option_def)
  have tr: "trace (start 0 50 (Some example_override) moving_example)
     = [OnStart 0 0, OnChange 0 0, OnStart 0 0]"
    using inst by (simp only: vals onStart if_True append.simps)
  from inst have "raf moving_example \<noteq> None \<longrightarrow>
      raf (start 0 50 (Some example_override) moving_example) = raf moving_example \<and>
      pendingFrames (start 0 50 (Some example_override) moving_example)
        = pendingFrames moving_example"
    by blast
  then have loop: "raf (start 0 50 (Some example_override) moving_example) = Some 2"
    "pendingFrames (start 0 50 (Some example_override) moving_example) = [2]"
    by (simp_all add: vals)
  have new': "velocity (spread_opt (spread springDefaultConfig (all_fields springDefaultConfig))
        (Some undefined_velocity_override)) = Undefined"
    by code_simp
  note inst' = start_sets_up_run [OF hyps, of 50 "Some undefined_velocity_override"]
  have ac': "velocity (activeConfig (start 0 50 (Some undefined_velocity_override)
      moving_example) 0) = Undefined"
    using inst' [THEN conjunct2, THEN conjunct2, THEN conjunct2, THEN conjunct1]
    by (simp only: vals new')
  have v': "v (rt (start 0 50 (Some undefined_velocity_override) moving_example) 0) = 0"
    using inst' [THEN conjunct2, THEN conjunct2, THEN conjunct2, THEN conjunct2,
      THEN conjunct2, THEN conjunct1]
    by (simp only: ac' refl if_True)
  from hyps r ac tr loop ac' v' show ?thesis
    by (intro conjI)
qed


section \<open>C9: the base configuration is private\<close>

lemma cfgHeap_start:
  "cfgHeap (start h x cfg s)
     = cfgHeap s @ [cfgHeap s ! config (info (spring s h)),
                    spread_opt (spread springDefaultConfig
                      (all_fields (cfgHeap s ! config (info (spring s h))))) cfg]"
  by (simp add: start_eq Let_def)

lemma config_start [simp]:
  "config (info (spring (start h x cfg s) g)) = config (info (spring s g))"
  by (simp add: start_eq Let_def)

lemma length_objs_start [simp]: "length (objs (start h x cfg s)) = length (objs s)"
  by (simp add: start_eq Let_def)

lemma get_config_eq:
  "get_config h s
     = (length (cfgHeap s), s\<lparr>cfgHeap := cfgHeap s @ [cfgHeap s ! config (info (spring s h))]\<rparr>)"
  by (simp add: get_config_def alloc_def)

lemma activeConfig_addr:
  assumes "cfg_ok s" and "g < length (objs s)"
  shows "(case startConfig (rt s g) of None \<Rightarrow> config (info (spring s g)) | Some a \<Rightarrow> a)
         < length (cfgHeap s)"
  using cfg_ok_config [OF assms] cfg_ok_startConfig [OF assms]
  by (simp split: option.splits)

lemma activeConfig_heap_indep:
  assumes objs: "objs s' = objs s"
    and heap: "\<And>a. a < length (cfgHeap s) \<Longrightarrow> cfgHeap s' ! a = cfgHeap s ! a"
    and ok: "cfg_ok s" and g: "g < length (objs s)"
  shows "activeConfig s' g = activeConfig s g"
proof (cases "startConfig (rt s g)")
  case None
  with heap [OF cfg_ok_config [OF ok g]] objs show ?thesis
    by (simp add: activeConfig_def rt_def spring_def)
next
  case (Some a)
  with heap [OF cfg_ok_startConfig [OF ok g Some]] objs show ?thesis
    by (simp add: activeConfig_def rt_def spring_def)
qed

text \<open>
  Claim C9.  After \<open>start(x, cfg)\<close> the instance still has the same base configuration
  object with the same contents, and the accessor \<open>config\<close> returns those contents, not
  the override.  What the accessor returns is a new object: its address is the
  configuration or \<open>startConfig\<close> of no spring, and whatever the caller writes to it,
  every spring keeps its base configuration and its active configuration.
\<close>

theorem config_override_does_not_leak:
  assumes "wf s" and "h < length (objs s)"
  shows "config (info (spring (start h x cfg s) h)) = config (info (spring s h)) \<and>
         cfgHeap (start h x cfg s) ! config (info (spring s h))
           = cfgHeap s ! config (info (spring s h)) \<and>
         cfgHeap (snd (get_config h (start h x cfg s))) ! fst (get_config h (start h x cfg s))
           = cfgHeap s ! config (info (spring s h)) \<and>
         cfgHeap (snd (get_config h s)) ! fst (get_config h s)
           = cfgHeap s ! config (info (spring s h)) \<and>
         objs (snd (get_config h s)) = objs s \<and>
         (\<forall>g < length (objs s).
            fst (get_config h s) \<noteq> config (info (spring s g)) \<and>
            startConfig (rt s g) \<noteq> Some (fst (get_config h s)) \<and>
            (\<forall>f. cfgHeap (mutate (fst (get_config h s)) f (snd (get_config h s)))
                   ! config (info (spring s g))
                 = cfgHeap s ! config (info (spring s g)) \<and>
                 activeConfig (mutate (fst (get_config h s)) f (snd (get_config h s))) g
                 = activeConfig s g \<and>
                 objs (mutate (fst (get_config h s)) f (snd (get_config h s))) = objs s))"
proof -
  have ok: "cfg_ok s"
    using assms(1) by (simp add: wf_def)
  have base: "config (info (spring s h)) < length (cfgHeap s)"
    by (rule cfg_ok_config [OF ok assms(2)])
  have kept: "cfgHeap (start h x cfg s) ! config (info (spring s h))
      = cfgHeap s ! config (info (spring s h))"
    using base by (simp add: cfgHeap_start nth_append)
  have after: "cfgHeap (snd (get_config h (start h x cfg s))) ! fst (get_config h (start h x cfg s))
      = cfgHeap s ! config (info (spring s h))"
    using kept by (simp add: get_config_eq nth_append)
  have copy: "cfgHeap (snd (get_config h s)) ! fst (get_config h s)
      = cfgHeap s ! config (info (spring s h))"
    by (simp add: get_config_eq)
  have fresh: "fst (get_config h s) \<noteq> config (info (spring s g)) \<and>
      startConfig (rt s g) \<noteq> Some (fst (get_config h s)) \<and>
      (\<forall>f. cfgHeap (mutate (fst (get_config h s)) f (snd (get_config h s)))
               ! config (info (spring s g))
             = cfgHeap s ! config (info (spring s g)) \<and>
           activeConfig (mutate (fst (get_config h s)) f (snd (get_config h s))) g
             = activeConfig s g \<and>
           objs (mutate (fst (get_config h s)) f (snd (get_config h s))) = objs s)"
    if g: "g < length (objs s)" for g
  proof -
    have c: "config (info (spring s g)) < length (cfgHeap s)"
      by (rule cfg_ok_config [OF ok g])
    have sc: "startConfig (rt s g) \<noteq> Some (length (cfgHeap s))"
      using cfg_ok_startConfig [OF ok g] by fastforce
    have act: "activeConfig (mutate (length (cfgHeap s)) f
        (s\<lparr>cfgHeap := cfgHeap s @ [cfgHeap s ! config (info (spring s h))]\<rparr>)) g
        = activeConfig s g" for f
      by (rule activeConfig_heap_indep [OF _ _ ok g]) (simp_all add: mutate_def nth_append)
    from c sc act show ?thesis
      by (simp add: get_config_eq) (simp add: mutate_def nth_append)
  qed
  from kept after copy fresh show ?thesis
    by (simp add: get_config_eq)
qed

text \<open>
  Witness of C9: the moving spring is restarted with an override, and a caller sets
  \<open>friction\<close> to 999 in the object the accessor returned.
\<close>

theorem config_override_does_not_leak_witness:
  "wf moving_example \<and> 0 < length (objs moving_example) \<and>
   config (info (spring moving_example 0)) = 0 \<and>
   cfgHeap (start 0 50 (Some example_override) moving_example) ! 0 = springDefaultConfig \<and>
   fst (get_config 0 moving_example) = 3 \<and>
   cfgHeap (snd (get_config 0 moving_example)) ! 3 = springDefaultConfig \<and>
   cfgHeap (mutate 3 (\<lambda>c. c\<lparr>friction := 999\<rparr>) (snd (get_config 0 moving_example))) ! 3
     = springDefaultConfig\<lparr>friction := 999\<rparr> \<and>
   cfgHeap (mutate 3 (\<lambda>c. c\<lparr>friction := 999\<rparr>) (snd (get_config 0 moving_example))) ! 0
     = springDefaultConfig \<and>
   activeConfig (mutate 3 (\<lambda>c. c\<lparr>friction := 999\<rparr>) (snd (get_config 0 moving_example))) 0
     = springDefaultConfig"
proof -
  have hyps: "wf moving_example" "0 < length (objs moving_example)"
    by (simp_all add: wf_moving_example) (simp add: moving_example_def)
  have vals: "config (info (spring moving_example 0)) = 0"
    "cfgHeap moving_example ! 0 = springDefaultConfig"
    "fst (get_config 0 moving_example) = 3"
    "activeConfig moving_example 0 = springDefaultConfig"
    by (simp_all add: moving_example_def spring_def example_spring_def get_config_eq
        activeConfig_def rt_def)
  have mut: "cfgHeap (mutate 3 (\<lambda>c. c\<lparr>friction := 999\<rparr>) (snd (get_config 0 moving_example))) ! 3
      = springDefaultConfig\<lparr>friction := 999\<rparr>"
    by (simp add: get_config_eq mutate_def moving_example_def spring_def example_spring_def)
  note inst = config_override_does_not_leak [OF hyps, of 50 "Some example_override"]
  from inst have "cfgHeap (start 0 50 (Some example_override) moving_example)
        ! config (info (spring moving_example 0))
      = cfgHeap moving_example ! config (info (spring moving_example 0))"
    and "cfgHeap (snd (get_config 0 moving_example)) ! fst (get_config 0 moving_example)
      = cfgHeap moving_example ! config (info (spring moving_example 0))"
    by blast+
  moreover from inst hyps(2)
  have "cfgHeap (mutate (fst (get_config 0 moving_example)) (\<lambda>c. c\<lparr>friction := 999\<rparr>)
          (snd (get_config 0 moving_example))) ! config (info (spring moving_example 0))
      = cfgHeap moving_example ! config (info (spring moving_example 0))"
    and "activeConfig (mutate (fst (get_config 0 moving_example)) (\<lambda>c. c\<lparr>friction := 999\<rparr>)
          (snd (get_config 0 moving_example))) 0
      = activeConfig moving_example 0"
    by blast+
  ultimately show ?thesis
    using hyps mut by (simp add: vals)
qed


section \<open>One spring during one tick\<close>

lemma springLoop_handles:
  "springLoop k cfg d opt h r = (c, r1, es) \<Longrightarrow> e \<in> set es \<Longrightarrow> cb_handle e = h"
  by (induction k arbitrary: r) (auto split: if_splits)

lemma springLoop_completed:
  "springLoop k cfg d opt h r = (True, r1, es) \<Longrightarrow> es = []"
  by (induction k arbitrary: r) (auto split: if_splits)

lemma springLoop_startConfig:
  "springLoop k cfg d opt h r = (c, r1, es) \<Longrightarrow> startConfig r1 = startConfig r"
  by (induction k arbitrary: r) (auto split: if_splits simp: eulerStep_def)

lemma subSteps_springLoop:
  assumes "h < length (objs s)"
    and "springLoop k cfg d (option (spring s h)) h (rt s h) = (c, r1, es)"
  shows "fst (subSteps k cfg d h s) = c \<and>
         rt (snd (subSteps k cfg d h s)) h = r1 \<and>
         trace (snd (subSteps k cfg d h s)) = trace s @ es"
  using assms
proof (induction k arbitrary: s)
  case 0
  then show ?case by simp
next
  case (Suc k)
  show ?case
  proof (cases "exactRest s h \<or> nearRest cfg s h")
    case True
    with Suc.prems show ?thesis
      by (auto simp: exactRest_def nearRest_def trace_fire split: if_splits)
  next
    case False
    then have rest: "\<not> exactRest s h" "\<not> nearRest cfg s h"
      by simp_all
    let ?s1 = "upd_runtime h (eulerStep cfg d) s"
    have "springLoop k cfg d (option (spring ?s1 h)) h (rt ?s1 h) = (c, r1, es)"
      using Suc.prems rest by (auto simp: exactRest_def nearRest_def split: if_splits)
    moreover have "h < length (objs ?s1)"
      using Suc.prems(1) by simp
    ultimately have "fst (subSteps k cfg d h ?s1) = c \<and>
         rt (snd (subSteps k cfg d h ?s1)) h = r1 \<and>
         trace (snd (subSteps k cfg d h ?s1)) = trace ?s1 @ es"
      by (rule Suc.IH [rotated])
    then show ?thesis
      unfolding subSteps_integrate [OF Suc.prems(1) rest] by simp
  qed
qed

lemma forEachCallback_springFrame:
  assumes "h < length (objs s)"
  shows "rt (forEachCallback deltaT n h s) h
           = fst (springFrame n (activeConfig s h) deltaT (option (spring s h)) h (rt s h)) \<and>
         trace (forEachCallback deltaT n h s)
           = trace s
             @ snd (springFrame n (activeConfig s h) deltaT (option (spring s h)) h (rt s h))"
proof -
  obtain c r1 es where loop:
    "springLoop (nat n) (activeConfig s h) (Num (deltaT / of_int n)) (option (spring s h)) h
       (rt s h)
       = (c, r1, es)"
    by (rule prod_cases3)
  note sub = subSteps_springLoop [OF assms loop]
  have opt: "option (spring (snd (subSteps k cfg d h s)) h) = option (spring s h)" for k cfg d
    by (rule subSteps_preserves [where P = "\<lambda>u. option (spring u h) = option (spring s h)"])
       simp_all
  show ?thesis
    using sub by (simp add: forEachCallback_subSteps Let_def springFrame_def loop trace_fire opt)
qed

lemma springFrame_handles:
  "e \<in> set (snd (springFrame n cfg deltaT opt h r)) \<Longrightarrow> cb_handle e = h"
  by (auto simp: springFrame_def split: prod.splits if_splits dest: springLoop_handles)

lemma callbacks_of_own: "(\<And>e. e \<in> set es \<Longrightarrow> cb_handle e = h) \<Longrightarrow> callbacks_of h es = es"
  by (simp add: callbacks_of_def)

lemma callbacks_of_append [simp]:
  "callbacks_of h (xs @ ys) = callbacks_of h xs @ callbacks_of h ys"
  by (simp add: callbacks_of_def)

lemma callbacks_of_fire_other:
  "g \<noteq> h \<Longrightarrow> cb = OnChange \<or> cb = OnRest \<or> cb = OnStart
   \<Longrightarrow> callbacks_of h (trace (fire b cb g s)) = callbacks_of h (trace s)"
  by (auto simp: callbacks_of_def trace_fire)

text \<open>
  What the iteration over the handles \<open>hs\<close> leaves alone: the registry, the store of
  configurations, the number of springs, every spring that is not among \<open>hs\<close>, and the
  callbacks of such a spring.
\<close>

lemma fold_forEachCallback_frame:
  "springs (fold (forEachCallback deltaT n) hs s) = springs s \<and>
   cfgHeap (fold (forEachCallback deltaT n) hs s) = cfgHeap s \<and>
   length (objs (fold (forEachCallback deltaT n) hs s)) = length (objs s) \<and>
   frameCounter (fold (forEachCallback deltaT n) hs s) = frameCounter s"
  by (rule fold_forEachCallback_preserves
      [where P = "\<lambda>u. springs u = springs s \<and> cfgHeap u = cfgHeap s \<and>
                  length (objs u) = length (objs s) \<and> frameCounter u = frameCounter s"])
     simp_all

lemma fold_forEachCallback_other:
  assumes "h \<notin> set hs"
  shows "spring (fold (forEachCallback deltaT n) hs s) h = spring s h \<and>
         callbacks_of h (trace (fold (forEachCallback deltaT n) hs s))
           = callbacks_of h (trace s)"
proof (rule fold_forEachCallback_preserves
    [where P = "\<lambda>u. spring u h = spring s h \<and>
                  callbacks_of h (trace u) = callbacks_of h (trace s)"])
  show "spring (upd_runtime g f u) h = spring s h \<and>
        callbacks_of h (trace (upd_runtime g f u)) = callbacks_of h (trace s)"
    if "g \<in> set hs" "spring u h = spring s h \<and> callbacks_of h (trace u) = callbacks_of h (trace s)"
    for u g and f :: "Runtime \<Rightarrow> Runtime"
  proof -
    from that(1) assms have "h \<noteq> g" by auto
    with that(2) show ?thesis by simp
  qed
  show "spring (fire b cb g u) h = spring s h \<and>
        callbacks_of h (trace (fire b cb g u)) = callbacks_of h (trace s)"
    if "g \<in> set hs" "cb = OnChange \<or> cb = OnRest"
      "spring u h = spring s h \<and> callbacks_of h (trace u) = callbacks_of h (trace s)"
    for u b cb g
  proof -
    from that(1) assms have "g \<noteq> h" by auto
    with that(2,3) show ?thesis
      by (auto simp: callbacks_of_fire_other)
  qed
qed simp_all

lemma activeConfig_cong:
  "spring s' h = spring s h \<Longrightarrow> cfgHeap s' = cfgHeap s \<Longrightarrow> activeConfig s' h = activeConfig s h"
  by (simp add: activeConfig_def rt_def split: option.splits)

text \<open>
  A spring among the handles \<open>hs\<close> (none of them twice) gets exactly its own loop: its
  runtime and its callbacks after the iteration are those of \<open>springFrame\<close>, computed from
  its runtime and active configuration before.
\<close>

lemma fold_forEachCallback_spring:
  assumes "distinct hs" and "h \<in> set hs" and "h < length (objs s)"
  shows "rt (fold (forEachCallback deltaT n) hs s) h
           = fst (springFrame n (activeConfig s h) deltaT (option (spring s h)) h (rt s h)) \<and>
         callbacks_of h (trace (fold (forEachCallback deltaT n) hs s))
           = callbacks_of h (trace s)
             @ snd (springFrame n (activeConfig s h) deltaT (option (spring s h)) h (rt s h))"
  using assms
proof (induction hs arbitrary: s)
  case Nil
  then show ?case by simp
next
  case (Cons g hs)
  let ?s1 = "forEachCallback deltaT n g s"
  show ?case
  proof (cases "g = h")
    case True
    with Cons.prems have "h \<notin> set hs" by simp
    from fold_forEachCallback_other [OF this, of deltaT n ?s1]
    have "rt (fold (forEachCallback deltaT n) hs ?s1) h = rt ?s1 h"
      and "callbacks_of h (trace (fold (forEachCallback deltaT n) hs ?s1))
           = callbacks_of h (trace ?s1)"
      by (simp_all add: rt_def)
    with forEachCallback_springFrame [OF Cons.prems(3), of deltaT n] True show ?thesis
      by (simp add: callbacks_of_own [OF springFrame_handles])
  next
    case False
    have one: "h \<notin> set [g]" using False by simp
    from fold_forEachCallback_other [OF one, of deltaT n s]
         fold_forEachCallback_frame [of deltaT n "[g]" s]
    have same: "spring ?s1 h = spring s h" "callbacks_of h (trace ?s1) = callbacks_of h (trace s)"
      "cfgHeap ?s1 = cfgHeap s" "length (objs ?s1) = length (objs s)"
      by simp_all
    from Cons.prems False have "distinct hs" "h \<in> set hs" "h < length (objs ?s1)"
      by (simp_all add: same)
    from Cons.IH [OF this] show ?thesis
      by (simp add: same activeConfig_cong [OF same(1,3)] rt_def)
  qed
qed

lemma reg_ok_distinct_handles:
  assumes "reg_ok s"
  shows "distinct (registered s)"
proof -
  have "inj_on snd (set (springs s))"
  proof (rule inj_onI)
    fix e1 e2
    assume e1: "e1 \<in> set (springs s)" and e2: "e2 \<in> set (springs s)"
      and eq: "snd e1 = snd e2"
    have k: "key (spring s (snd e)) = fst e" if "e \<in> set (springs s)" for e
      using assms that by (simp add: reg_ok_def)
    have "fst e1 = key (spring s (snd e1))"
      by (rule k [OF e1, symmetric])
    also have "\<dots> = key (spring s (snd e2))"
      by (simp only: eq)
    also have "\<dots> = fst e2"
      by (rule k [OF e2])
    finally have "fst e1 = fst e2" .
    with \<open>snd e1 = snd e2\<close> show "e1 = e2"
      by (simp add: prod_eq_iff)
  qed
  moreover from assms have "distinct (springs s)"
    by (simp add: reg_ok_def distinct_map)
  ultimately show ?thesis
    by (simp add: registered_def distinct_map)
qed

lemma reg_ok_registered: "reg_ok s \<Longrightarrow> h \<in> set (registered s) \<Longrightarrow> h < length (objs s)"
  by (auto simp: reg_ok_def registered_def)

lemma onFrame_elapsed:
  "onFrame t s =
     (let s4 = s\<lparr>frameCounter := Suc (frameCounter s),
                  pendingFrames := pendingFrames s @ [Suc (frameCounter s)],
                  raf := Some (Suc (frameCounter s)), lastT := t\<rparr>
      in if elapsed t s > 100 then s4\<lparr>lastT := - 1\<rparr>
         else fold (forEachCallback (elapsed t s) (subStepCount t s)) (registered s) s4)"
  by (simp add: onFrame_eq Let_def elapsed_def subStepCount_def registered_def)

text \<open>
  A tick that passes the lag guard runs the loop of every registered spring, whether it is
  running or not, once, with \<open>subStepCount\<close> sub-steps that share \<open>elapsed\<close>; a tick
  never touches a spring that is not registered, and calls none of its callbacks.
\<close>

lemma onFrame_registered:
  assumes "reg_ok s" and "h \<in> set (registered s)" and "\<not> elapsed t s > 100"
  shows "rt (onFrame t s) h
           = fst (springFrame (subStepCount t s) (activeConfig s h) (elapsed t s)
                    (option (spring s h)) h (rt s h)) \<and>
         callbacks_of h (trace (onFrame t s))
           = callbacks_of h (trace s)
             @ snd (springFrame (subStepCount t s) (activeConfig s h) (elapsed t s)
                      (option (spring s h)) h (rt s h))"
proof -
  let ?s4 = "s\<lparr>frameCounter := Suc (frameCounter s),
                pendingFrames := pendingFrames s @ [Suc (frameCounter s)],
                raf := Some (Suc (frameCounter s)), lastT := t\<rparr>"
  have len: "h < length (objs ?s4)"
    using reg_ok_registered [OF assms(1,2)] by simp
  have same: "spring ?s4 h = spring s h" "cfgHeap ?s4 = cfgHeap s" "trace ?s4 = trace s"
    by (simp_all add: spring_def)
  from fold_forEachCallback_spring [OF reg_ok_distinct_handles [OF assms(1)] assms(2) len,
      of "elapsed t s" "subStepCount t s"]
  show ?thesis
    using assms(3)
    by (simp add: onFrame_elapsed Let_def activeConfig_cong [OF same(1,2)] rt_def same(1))
qed

lemma onFrame_unregistered:
  assumes "h \<notin> set (registered s)"
  shows "spring (onFrame t s) h = spring s h \<and>
         callbacks_of h (trace (onFrame t s)) = callbacks_of h (trace s)"
proof -
  let ?s4 = "s\<lparr>frameCounter := Suc (frameCounter s),
                pendingFrames := pendingFrames s @ [Suc (frameCounter s)],
                raf := Some (Suc (frameCounter s)), lastT := t\<rparr>"
  from fold_forEachCallback_other [OF assms, of "elapsed t s" "subStepCount t s" ?s4]
  show ?thesis
    by (simp add: onFrame_elapsed Let_def spring_def)
qed


section \<open>C10: a spring that was never started\<close>

lemma bystander_example_reachable:
  "run [Create (plain_option (Some 5)) [7], Create (plain_option None) [8],
        Start 1 100 None, Frame 16] initial
   = Some bystander_example"
  by code_simp

lemma controller_created:
  assumes "controller opt draws s = Some (h, s')"
  shows "rt s' h = created (nullish (read_field (opt_value opt)) 0) \<and>
         h \<in> set (registered s') \<and> h < length (objs s')"
  using controller_eq [OF assms]
  by (auto simp: rt_def spring_def created_def registered_def)

text \<open>
  Counterexample to C10 as stated.  A spring is created with value \<open>5\<close>, then another
  one is created and started, which makes the frame loop active.  After the next tick (at
  time \<open>16\<close>) the first spring is where it was and is not running: that tick sets the
  baseline, has elapsed time \<open>0\<close> and no sub-step.
\<close>

theorem unstarted_spring_first_tick_counterexample:
  "map_option (\<lambda>s. rt s 0)
     (run [Create (plain_option (Some 5)) [7], Create (plain_option None) [8],
           Start 1 100 None, Frame 16] initial)
   = Some \<lparr>goal = 0, current = 5, v = 0, running = False, startConfig = None\<rparr>"
  by code_simp

lemma springLoop_running:
  assumes "running r" and "springLoop k cfg d opt h r = (c, r1, es)"
  shows "(c \<longrightarrow> running r1 \<and> es = []) \<and>
         (\<not> c \<longrightarrow> \<not> running r1 \<and> (onRest opt \<longrightarrow> es \<noteq> [] \<and> last es = OnRest h (current r1)))"
  using assms
proof (induction k arbitrary: r)
  case 0
  then show ?case by simp
next
  case (Suc k)
  have "running (eulerStep cfg d r)"
    by (simp add: eulerStep_def)
  from Suc.IH [OF this] Suc.prems show ?case
    by (auto split: if_splits)
qed

lemma springLoop_created_integrates:
  assumes "x \<noteq> 0" and "precision cfg \<le> \<bar>x\<bar>"
  shows "springLoop (Suc k) cfg d opt h (created x)
         = springLoop k cfg d opt h (eulerStep cfg d (created x))"
  using assms by (auto simp: created_def dest: number_less_eq_not_less)

lemma springLoop_created_snaps:
  assumes "x \<noteq> 0" and "\<bar>x\<bar> < precision cfg"
  shows "springLoop (Suc k) cfg d opt h (created x)
         = (False, (created x)\<lparr>current := 0\<rparr>,
            (if onChange opt then [OnChange h 0] else [])
            @ (if onRest opt then [OnRest h 0] else []))"
  using assms number_abs_less_pos [OF assms(2)] by (auto simp: created_def)


text \<open>
  Claim C10, as amended.  A tick that passes the lag guard runs the sub-step loop of every
  registered spring, running or not.  So for a registered spring that is as \<open>controller\<close>
  made it with \<open>option.value = x\<close>, \<open>x \<noteq> 0\<close> (goal \<open>0\<close>, not running, never started
  or set), with \<open>cfg\<close> its base configuration:
  \<^item> the tick leaves it with the runtime and the callbacks of \<open>springFrame\<close>;
  \<^item> on a tick without sub-steps, as the first tick after the loop became active is
    (\<open>lastT < 0\<close>, elapsed time \<open>0\<close>), only \<open>onChange\<close> fires and the spring is as before;
  \<^item> on a tick with at least one sub-step and \<open>|x| \<ge> precision\<close>, the first sub-step is
    an Euler step toward \<open>0\<close> that sets \<open>running\<close>, and at the end of the tick either
    the spring is running and \<open>onChange\<close> fired once, or it came to rest during the tick
    and \<open>onRest\<close> fired last;
  \<^item> on a tick with at least one sub-step and \<open>|x| < precision\<close>, the spring is put on
    \<open>0\<close>, \<open>onChange\<close> and \<open>onRest\<close> fire, and it is never running.
\<close>

theorem unstarted_spring_is_processed:
  assumes "reg_ok s" and "h \<in> set (registered s)" and "\<not> elapsed t s > 100"
    and "rt s h = created x" and "x \<noteq> 0"
    and "cfg = cfgHeap s ! config (info (spring s h))"
    and "opt = option (spring s h)"
    and "n = subStepCount t s"
    and "r1 = rt (onFrame t s) h"
    and "callbacks_of h (trace (onFrame t s)) = callbacks_of h (trace s) @ es"
  shows "(r1, es) = springFrame n cfg (elapsed t s) opt h (created x) \<and>
         (lastT s < 0 \<longrightarrow> n = 0) \<and>
         (n \<le> 0 \<longrightarrow> r1 = created x \<and> es = (if onChange opt then [OnChange h x] else [])) \<and>
         (0 < n \<and> precision cfg \<le> \<bar>x\<bar> \<longrightarrow>
            springLoop (nat n) cfg (Num (elapsed t s / of_int n)) opt h (created x)
              = springLoop (nat n - 1) cfg (Num (elapsed t s / of_int n)) opt h
                  (eulerStep cfg (Num (elapsed t s / of_int n)) (created x)) \<and>
            running (eulerStep cfg (Num (elapsed t s / of_int n)) (created x)) \<and>
            v (eulerStep cfg (Num (elapsed t s / of_int n)) (created x))
              = 0 + ((tension cfg * (0 - x) - friction cfg * 0) / mass cfg)
                    * (Num (elapsed t s / of_int n)) / 1000 \<and>
            (friction cfg \<noteq> NaN \<and> friction cfg \<noteq> Undefined \<longrightarrow>
               v (eulerStep cfg (Num (elapsed t s / of_int n)) (created x))
                 = (tension cfg * (0 - x) / mass cfg) * (Num (elapsed t s / of_int n)) / 1000) \<and>
            (running r1 \<and> es = (if onChange opt then [OnChange h (current r1)] else []) \<or>
             \<not> running r1 \<and> (onRest opt \<longrightarrow> es \<noteq> [] \<and> last es = OnRest h (current r1)))) \<and>
         (0 < n \<and> \<bar>x\<bar> < precision cfg \<longrightarrow>
            r1 = (created x)\<lparr>current := 0\<rparr> \<and>
            es = (if onChange opt then [OnChange h 0] else [])
                 @ (if onRest opt then [OnRest h 0] else []))"
proof -
  let ?d = "Num (elapsed t s / of_int n)"
  have active: "activeConfig s h = cfg"
    using assms(4,6) by (simp add: activeConfig_def created_def)
  from onFrame_registered [OF assms(1-3)] assms(10)
  have frame: "(r1, es) = springFrame n cfg (elapsed t s) opt h (created x)"
    by (simp add: active assms(4,7,8,9) prod_eq_iff)
  have base: "lastT s < 0 \<longrightarrow> n = 0"
    by (simp add: assms(8) subStepCount_def elapsed_def)
  have none: "r1 = created x \<and> es = (if onChange opt then [OnChange h x] else [])" if "n \<le> 0"
    using frame that by (simp add: springFrame_def created_def)
  have near: "r1 = (created x)\<lparr>current := 0\<rparr> \<and>
      es = (if onChange opt then [OnChange h 0] else []) @ (if onRest opt then [OnRest h 0] else [])"
    if "0 < n" "\<bar>x\<bar> < precision cfg"
  proof -
    from that(1) obtain k where k: "nat n = Suc k"
      by (cases "nat n") auto
    from frame show ?thesis
      by (simp add: springFrame_def k springLoop_created_snaps [OF assms(5) that(2)]
          del: springLoop.simps)
  qed
  have far: "springLoop (nat n) cfg ?d opt h (created x)
        = springLoop (nat n - 1) cfg ?d opt h (eulerStep cfg ?d (created x)) \<and>
      running (eulerStep cfg ?d (created x)) \<and>
      v (eulerStep cfg ?d (created x))
        = 0 + ((tension cfg * (0 - x) - friction cfg * 0) / mass cfg) * ?d / 1000 \<and>
      (friction cfg \<noteq> NaN \<and> friction cfg \<noteq> Undefined \<longrightarrow>
         v (eulerStep cfg ?d (created x)) = (tension cfg * (0 - x) / mass cfg) * ?d / 1000) \<and>
      (running r1 \<and> es = (if onChange opt then [OnChange h (current r1)] else []) \<or>
       \<not> running r1 \<and> (onRest opt \<longrightarrow> es \<noteq> [] \<and> last es = OnRest h (current r1)))"
    if "0 < n" "precision cfg \<le> \<bar>x\<bar>"
  proof -
    from that(1) obtain k where k: "nat n = Suc k"
      by (cases "nat n") auto
    have step: "springLoop (nat n) cfg ?d opt h (created x)
        = springLoop (nat n - 1) cfg ?d opt h (eulerStep cfg ?d (created x))"
      by (simp add: k springLoop_created_integrates [OF assms(5) that(2)]
          del: springLoop.simps)
    have run: "running (eulerStep cfg ?d (created x))"
      and vel: "v (eulerStep cfg ?d (created x))
        = 0 + ((tension cfg * (0 - x) - friction cfg * 0) / mass cfg) * ?d / 1000"
      by (simp_all add: eulerStep_def spec_newVelocity_def spec_accel_def spec_force_def
          spec_offset_def created_def)
    have vel': "v (eulerStep cfg ?d (created x)) = (tension cfg * (0 - x) / mass cfg) * ?d / 1000"
      if "friction cfg \<noteq> NaN \<and> friction cfg \<noteq> Undefined"
    proof -
      from that obtain a where "friction cfg = Num a"
        by (cases "friction cfg") auto
      then show ?thesis
        unfolding vel by (simp add: number_times_minus_zero number_zero_plus_divide)
    qed
    obtain c r2 es2 where loop:
      "springLoop (nat n - 1) cfg ?d opt h (eulerStep cfg ?d (created x)) = (c, r2, es2)"
      by (rule prod_cases3)
    from frame have "r1 = r2" "es = es2 @ (if c \<and> onChange opt then [OnChange h (current r2)] else [])"
      unfolding springFrame_def step loop by simp_all
    with springLoop_running [OF run loop] have
      "running r1 \<and> es = (if onChange opt then [OnChange h (current r1)] else []) \<or>
       \<not> running r1 \<and> (onRest opt \<longrightarrow> es \<noteq> [] \<and> last es = OnRest h (current r1))"
      by (cases c) auto
    with step run vel vel' show ?thesis by blast
  qed
  from frame base none near far show ?thesis by blast
qed

text \<open>
  Witness of C10: the spring created with value \<open>5\<close> and never started, on the second
  tick, \<open>1/6\<close> ms after the first: one sub-step, after which it is running and moving
  toward \<open>0\<close>.
\<close>

theorem unstarted_spring_is_processed_witness:
  "reg_ok bystander_example \<and> 0 \<in> set (registered bystander_example) \<and>
   \<not> elapsed (97 / 6) bystander_example > 100 \<and>
   rt bystander_example 0 = created 5 \<and>
   subStepCount (97 / 6) bystander_example = 1 \<and>
   precision springDefaultConfig \<le> \<bar>5\<bar> \<and>
   callbacks_of 0 (trace (onFrame (97 / 6) bystander_example))
     = callbacks_of 0 (trace bystander_example) @ [OnChange 0 (3599983 / 720000)] \<and>
   running (rt (onFrame (97 / 6) bystander_example) 0) \<and>
   current (rt (onFrame (97 / 6) bystander_example) 0) = 3599983 / 720000"
proof -
  have hyps: "reg_ok bystander_example" "0 \<in> set (registered bystander_example)"
    "\<not> elapsed (97 / 6) bystander_example > 100"
    "rt bystander_example 0 = created 5" "(5 :: number) \<noteq> 0"
    "springDefaultConfig = cfgHeap bystander_example ! config (info (spring bystander_example 0))"
    "plain_option (Some 5) = option (spring bystander_example 0)"
    "1 = subStepCount (97 / 6) bystander_example"
    by (simp_all add: bystander_example_def reg_ok_def registered_def elapsed_def rt_def
        spring_def example_spring_def created_def subStepCount_def frameResolution_def)
  have cbs: "callbacks_of 0 (trace (onFrame (97 / 6) bystander_example))
      = callbacks_of 0 (trace bystander_example) @ [OnChange 0 (3599983 / 720000)]"
    by code_simp
  have prec: "precision springDefaultConfig \<le> \<bar>5\<bar>"
    by (simp add: springDefaultConfig_def)
  from unstarted_spring_is_processed [OF hyps refl cbs]
  have "(rt (onFrame (97 / 6) bystander_example) 0, [OnChange 0 (3599983 / 720000)])
      = springFrame 1 springDefaultConfig (elapsed (97 / 6) bystander_example)
          (plain_option (Some 5)) 0 (created 5)"
    by (rule conjunct1)
  also have "\<dots> = (\<lparr>goal = 0, current = 3599983 / 720000, v = - (17 / 120), running = True,
      startConfig = None\<rparr>, [OnChange 0 (3599983 / 720000)])"
    by code_simp
  finally have "rt (onFrame (97 / 6) bystander_example) 0
      = \<lparr>goal = 0, current = 3599983 / 720000, v = - (17 / 120), running = True,
         startConfig = None\<rparr>"
    by simp
  with hyps cbs prec show ?thesis
    by simp
qed


section \<open>C6: callbacks after \<open>remove\<close>\<close>

lemma onFrame_frame:
  "springs (onFrame t s) = springs s \<and> cfgHeap (onFrame t s) = cfgHeap s \<and>
   length (objs (onFrame t s)) = length (objs s)"
  using fold_forEachCallback_frame [of "elapsed t s" "subStepCount t s" "registered s"]
  by (simp add: onFrame_elapsed Let_def)

lemma registered_remove:
  assumes "reg_ok s" and "h < length (objs s)"
  shows "h \<notin> set (registered (remove h s))"
proof
  assume "h \<in> set (registered (remove h s))"
  then obtain e where e: "e \<in> set (springs (remove h s))" "snd e = h"
    by (auto simp: registered_def)
  then have "e \<in> set (springs s)" "fst e \<noteq> key (spring s h)"
    by (simp_all add: springs_remove)
  with assms(1) e(2) show False
    by (auto simp: reg_ok_def)
qed

lemma silent_exec:
  assumes wf: "wf s" and h: "h < length (objs s)" and un: "h \<notin> set (registered s)"
    and a: "\<not> calls h a" and ex: "exec a s = Some s'"
  shows "h < length (objs s') \<and> h \<notin> set (registered s') \<and>
         callbacks_of h (trace s') = callbacks_of h (trace s) \<and> spring s' h = spring s h"
proof (cases a)
  case (Create opt draws)
  with ex obtain g where "controller opt draws s = Some (g, s')"
    by auto
  from controller_eq [OF this] h un show ?thesis
    by (auto simp: registered_def spring_def nth_append)
next
  case (Start g x c)
  with a ex have g: "g \<noteq> h" and s': "s' = start g x c s"
    by (auto split: if_splits)
  from g h un show ?thesis
    unfolding s'
    by (simp add: start_eq Let_def registered_def callbacks_of_fire_other)
next
  case (Set g x)
  with a ex have g: "g \<noteq> h" and s': "s' = set_value g x s"
    by (auto split: if_splits)
  from g h un show ?thesis
    unfolding s'
    by (simp add: set_value_eq registered_def callbacks_of_fire_other)
next
  case (Pause g)
  with ex h un show ?thesis
    by (auto simp: pause_def split: if_splits)
next
  case (Remove g)
  with ex have s': "s' = remove g s"
    by (auto split: if_splits)
  have "set (registered (remove g s)) \<subseteq> set (registered s)"
    by (auto simp: registered_def springs_remove)
  with h un show ?thesis
    unfolding s' by auto
next
  case (Frame t)
  show ?thesis
  proof (cases "pendingFrames s")
    case Nil
    with ex Frame h un show ?thesis by simp
  next
    case (Cons f fs)
    let ?s0 = "s\<lparr>pendingFrames := fs\<rparr>"
    from ex Frame Cons have s': "s' = onFrame t ?s0"
      by simp
    have "h \<notin> set (registered ?s0)"
      using un by (simp add: registered_def)
    from onFrame_unregistered [OF this, of t] onFrame_frame [of t ?s0] h un show ?thesis
      unfolding s' by (simp add: registered_def spring_def)
  qed
qed

lemma silent_run:
  assumes "wf s" and "h < length (objs s)" and "h \<notin> set (registered s)"
    and "\<forall>a \<in> set as. \<not> calls h a" and "run as s = Some s'"
  shows "h \<notin> set (registered s') \<and>
         callbacks_of h (trace s') = callbacks_of h (trace s) \<and> spring s' h = spring s h"
  using assms
proof (induction as arbitrary: s)
  case Nil
  then show ?case by simp
next
  case (Cons a as)
  from Cons.prems(5) obtain s1 where s1: "exec a s = Some s1" "run as s1 = Some s'"
    by (auto split: option.splits)
  from Cons.prems(4) have a: "\<not> calls h a" and as: "\<forall>a \<in> set as. \<not> calls h a"
    by simp_all
  note one = silent_exec [OF Cons.prems(1-3) a s1(1)]
  from Cons.IH [OF wf_exec [OF Cons.prems(1) s1(1)] _ _ as s1(2)] one
  show ?case by simp
qed

text \<open>
  Counterexample to C6 as stated: a spring is created and removed; then \<open>set(3)\<close> on its
  controller calls \<open>onChange\<close> and \<open>start(5)\<close> calls \<open>onStart\<close>.
\<close>

theorem callbacks_after_remove_counterexample:
  "map_option trace
     (run [Create (plain_option None) [7], Remove 0, Set 0 3, Start 0 5 None] initial)
   = Some [OnChange 0 3, OnStart 0 3]"
  by code_simp

text \<open>
  Claim C6, as amended.  After \<open>remove()\<close> on the controller \<open>h\<close>, whatever happens next
  (ticks, new controllers, any operation of another controller, \<open>pause\<close> and \<open>remove\<close> of
  \<open>h\<close> itself), as long as \<open>start\<close> and \<open>set\<close> of \<open>h\<close> are not called: no callback of
  that spring is called, the spring is not changed, and it stays out of the registry.
\<close>

theorem removed_spring_is_silent:
  assumes "wf s" and "h < length (objs s)"
    and "\<forall>a \<in> set as. \<not> calls h a"
    and "run as (remove h s) = Some s'"
  shows "callbacks_of h (trace s') = callbacks_of h (trace s) \<and>
         spring s' h = spring s h \<and>
         h \<notin> set (registered s')"
proof -
  have "reg_ok s"
    using assms(1) by (simp add: wf_def)
  from registered_remove [OF this assms(2)]
  have "h \<notin> set (registered (remove h s))" .
  from silent_run [OF wf_remove [OF assms(1)] _ this assms(3,4)] assms(2)
  show ?thesis by simp
qed

text \<open>
  Witness of C6: the moving spring is removed; then come a tick, a new controller (which
  gets the key \<open>7\<close> again), another tick and \<open>pause\<close> on the removed controller.
\<close>

theorem removed_spring_is_silent_witness:
  "wf moving_example \<and> 0 < length (objs moving_example) \<and>
   list_all (\<lambda>a. \<not> calls 0 a)
     [Frame (1 / 6), Create (plain_option (Some 1)) [7], Frame (1 / 3), Pause 0] \<and>
   map_option (\<lambda>s. (callbacks_of 0 (trace s), rt s 0, registered s))
     (run [Frame (1 / 6), Create (plain_option (Some 1)) [7], Frame (1 / 3), Pause 0]
        (remove 0 moving_example))
   = Some ([OnStart 0 0, OnChange 0 0],
           \<lparr>goal = 100, current = 0, v = 0, running = True, startConfig = Some 2\<rparr>, [1])"
proof -
  let ?as = "[Frame (1 / 6), Create (plain_option (Some 1)) [7], Frame (1 / 3), Pause 0]"
  have hyps: "wf moving_example" "0 < length (objs moving_example)"
    "\<forall>a \<in> set ?as. \<not> calls 0 a"
    by (simp_all add: wf_moving_example) (simp add: moving_example_def)
  have "map_option registered (run ?as (remove 0 moving_example)) = Some [1]"
    by code_simp
  then obtain s' where s': "run ?as (remove 0 moving_example) = Some s'"
    and reg: "registered s' = [1]"
    by auto
  have vals: "callbacks_of 0 (trace moving_example) = [OnStart 0 0, OnChange 0 0]"
    "rt moving_example 0
      = \<lparr>goal = 100, current = 0, v = 0, running = True, startConfig = Some 2\<rparr>"
    by (simp_all add: moving_example_def callbacks_of_def rt_def spring_def example_spring_def)
  from removed_spring_is_silent [OF hyps s']
  have "callbacks_of 0 (trace s') = [OnStart 0 0, OnChange 0 0]"
    and "rt s' 0 = \<lparr>goal = 100, current = 0, v = 0, running = True, startConfig = Some 2\<rparr>"
    by (simp_all add: vals rt_def vals(2) [unfolded rt_def])
  with hyps reg show ?thesis
    unfolding s' by simp
qed


section \<open>C5: the frame loop after the last running spring is removed\<close>

text \<open>
  With an empty registry a tick calls no \<open>forEach\<close> callback, hence no idle check: the
  loop that is active stays active, tick after tick.
\<close>

lemma empty_registry_tick:
  assumes "springs s = []" and "loopActive s"
  shows "\<exists>s'. exec (Frame t) s = Some s' \<and> springs s' = [] \<and> loopActive s'"
proof -
  from assms(2) obtain f fs where "pendingFrames s = f # fs"
    by (cases "pendingFrames s") (auto simp: loopActive_def)
  with assms(1) show ?thesis
    by (simp add: onFrame_eq Let_def loopActive_def)
qed

lemma empty_registry_loop_never_stops:
  assumes "springs s = []" and "loopActive s"
  shows "\<exists>s'. run (map Frame ts) s = Some s' \<and> springs s' = [] \<and> loopActive s'"
  using assms
proof (induction ts arbitrary: s)
  case Nil
  then show ?case by simp
next
  case (Cons t ts)
  from empty_registry_tick [OF Cons.prems, of t] obtain s1
    where "exec (Frame t) s = Some s1" "springs s1 = []" "loopActive s1"
    by blast
  with Cons.IH [of s1] show ?case
    by simp
qed

text \<open>
  Claim C5 on the code, at a failing input: a spring is created and started, a tick
  passes, and the spring is removed.  No spring is registered, yet \<open>raf\<close> is set and
  the request is pending at the platform; two ticks later it is still so.
\<close>

theorem loop_survives_last_remove:
  "map_option (\<lambda>s. (registered s, hasRunning s, raf s, pendingFrames s, loopActive s))
     (run [Create (plain_option None) [7], Start 0 100 None, Frame 0, Remove 0] initial)
   = Some ([], False, Some 2, [2], True) \<and>
   map_option (\<lambda>s. (registered s, hasRunning s, raf s, pendingFrames s, loopActive s))
     (run [Create (plain_option None) [7], Start 0 100 None, Frame 0, Remove 0,
           Frame 16, Frame 32] initial)
   = Some ([], False, Some 4, [4], True)"
  by code_simp

text \<open>
  Where the defect is: as long as \<open>remove\<close> is not called, the idle shutdown works.  In
  every state reached from the initial one by creating controllers, \<open>start\<close>, \<open>set\<close>,
  \<open>pause\<close> and ticks, a registered spring is running or no frame request is pending.
\<close>

lemma idle_shutdown_checkIdle: "idle_shutdown (checkIdle s)"
  by (simp add: idle_shutdown_def checkIdle_def)

lemma hasRunning_fire [simp]: "hasRunning (fire b cb h s) = hasRunning s"
  by (simp add: hasRunning_iff)

lemma idle_shutdown_fire [simp]: "idle_shutdown (fire b cb h s) = idle_shutdown s"
  by (simp add: idle_shutdown_def)

lemma registered_upd_runtime [simp]: "registered (upd_runtime h f s) = registered s"
  by (simp add: registered_def)

lemma hasRunning_running:
  assumes "h \<in> set (registered s)" and "h < length (objs s)" and "running (f (rt s h))"
  shows "hasRunning (upd_runtime h f s)"
  using assms by (auto simp: hasRunning_registered intro!: bexI [of _ h])

lemma hasRunning_startAnimationFrame [simp]:
  "hasRunning (startAnimationFrame s) = hasRunning s"
  by (simp add: hasRunning_iff)

lemma subSteps_idle_shutdown:
  assumes "h \<in> set (registered s)" and "h < length (objs s)" and "idle_shutdown s"
  shows "idle_shutdown (snd (subSteps k cfg d h s))"
  using assms
proof (induction k arbitrary: s)
  case 0
  then show ?case by simp
next
  case (Suc k)
  show ?case
  proof (cases "exactRest s h \<or> nearRest cfg s h")
    case True
    with Suc.prems(3) show ?thesis
      by (auto simp: exactRest_def nearRest_def idle_shutdown_checkIdle Let_def)
  next
    case False
    then have rest: "\<not> exactRest s h" "\<not> nearRest cfg s h"
      by simp_all
    let ?s1 = "upd_runtime h (eulerStep cfg d) s"
    have "hasRunning ?s1"
      by (rule hasRunning_running [OF Suc.prems(1,2)]) (simp add: eulerStep_def)
    then have "idle_shutdown ?s1"
      by (simp add: idle_shutdown_def)
    with Suc.prems(1,2) have "idle_shutdown (snd (subSteps k cfg d h ?s1))"
      by (intro Suc.IH) simp_all
    then show ?thesis
      unfolding subSteps_integrate [OF Suc.prems(2) rest] .
  qed
qed

lemma forEachCallback_idle_shutdown:
  assumes "h \<in> set (registered s)" and "h < length (objs s)" and "idle_shutdown s"
  shows "idle_shutdown (forEachCallback deltaT n h s)"
  using subSteps_idle_shutdown [OF assms]
  by (simp add: forEachCallback_subSteps Let_def)

lemma fold_forEachCallback_idle_shutdown:
  assumes "set hs \<subseteq> set (registered s)" and "\<forall>h \<in> set hs. h < length (objs s)"
    and "idle_shutdown s"
  shows "idle_shutdown (fold (forEachCallback deltaT n) hs s)"
  using assms
proof (induction hs arbitrary: s)
  case Nil
  then show ?case by simp
next
  case (Cons h hs)
  let ?s1 = "forEachCallback deltaT n h s"
  from fold_forEachCallback_frame [of deltaT n "[h]" s]
  have same: "springs ?s1 = springs s" "length (objs ?s1) = length (objs s)"
    by simp_all
  have "idle_shutdown ?s1"
    using Cons.prems by (intro forEachCallback_idle_shutdown) simp_all
  with Cons.prems show ?case
    by (simp add: Cons.IH same registered_def)
qed

lemma onFrame_idle_shutdown:
  assumes "reg_ok s" and "hasRunning s"
  shows "idle_shutdown (onFrame t s)"
proof -
  let ?s4 = "s\<lparr>frameCounter := Suc (frameCounter s),
                pendingFrames := pendingFrames s @ [Suc (frameCounter s)],
                raf := Some (Suc (frameCounter s)), lastT := t\<rparr>"
  have run: "hasRunning ?s4" "hasRunning (?s4\<lparr>lastT := - 1\<rparr>)"
    using assms(2) by (simp_all add: hasRunning_iff rt_def spring_def)
  have "idle_shutdown (fold (forEachCallback d n) (registered s) ?s4)" for d n
    using assms(1) run(1)
    by (intro fold_forEachCallback_idle_shutdown)
       (auto simp: registered_def reg_ok_def idle_shutdown_def)
  with run(2) show ?thesis
    by (simp add: onFrame_elapsed Let_def idle_shutdown_def)
qed

lemma idle_shutdown_exec:
  assumes "wf s" and "all_registered s" and "idle_shutdown s"
    and "\<not> is_Remove a" and "exec a s = Some s'"
  shows "all_registered s' \<and> idle_shutdown s'"
proof (cases a)
  case (Create opt draws)
  with assms(5) obtain g where "controller opt draws s = Some (g, s')"
    by auto
  from controller_eq [OF this] obtain k where s': "s' = s\<lparr>cfgHeap := cfgHeap s @ [spread_opt springDefaultConfig (opt_config opt)],
                  objs := objs s @
                    [\<lparr>key = k, option = opt,
                      info = \<lparr>runtime = \<lparr>goal = 0,
                                 current = nullish (read_field (opt_value opt)) 0,
                                 v = 0, running = False, startConfig = None\<rparr>,
                               config = length (cfgHeap s)\<rparr>\<rparr>],
                  springs := springs s @ [(k, length (objs s))]\<rparr>"
    by blast
  have "all_registered s'"
    using assms(2) unfolding s'
    by (auto simp: all_registered_def registered_def less_Suc_eq)
  moreover have "hasRunning s \<Longrightarrow> hasRunning s'"
    using assms(1) unfolding s'
    by (auto simp: hasRunning_iff rt_def spring_def nth_append wf_def reg_ok_def)
  then have "idle_shutdown s'"
    using assms(3) by (auto simp: idle_shutdown_def) (simp add: s')
  ultimately show ?thesis by simp
next
  case (Start g x c)
  with assms(5) have g: "g < length (objs s)" and s': "s' = start g x c s"
    by (auto split: if_splits)
  from g assms(2) have reg: "g \<in> set (registered s)"
    by (simp add: all_registered_def)
  have "hasRunning (upd_runtime g f (s\<lparr>cfgHeap := hp\<rparr>))" if "running (f (rt s g))"
    for f hp
    using reg g that by (intro hasRunning_running) (simp_all add: registered_def)
  then have "hasRunning s'"
    unfolding s' by (simp add: start_eq Let_def)
  moreover have "all_registered s'"
    using assms(2) unfolding s'
    by (simp add: all_registered_def registered_def start_eq Let_def)
  ultimately show ?thesis
    by (simp add: idle_shutdown_def)
next
  case (Set g x)
  with assms(5) have s': "s' = set_value g x s"
    by (auto split: if_splits)
  from assms(2) show ?thesis
    unfolding s'
    by (simp add: set_value_eq idle_shutdown_checkIdle all_registered_def registered_def)
next
  case (Pause g)
  with assms(2,3,5) show ?thesis
    by (auto simp: pause_def split: if_splits)
next
  case (Remove g)
  with assms(4) show ?thesis by simp
next
  case (Frame t)
  show ?thesis
  proof (cases "pendingFrames s")
    case Nil
    with assms(2,3,5) Frame show ?thesis by simp
  next
    case (Cons f fs)
    let ?s0 = "s\<lparr>pendingFrames := fs\<rparr>"
    from assms(5) Frame Cons have s': "s' = onFrame t ?s0"
      by simp
    from assms(1) Cons have "raf s \<noteq> None"
      by (auto simp: wf_def sched_ok_def split: option.splits)
    with assms(3) have "hasRunning s"
      by (simp add: idle_shutdown_def)
    then have run: "hasRunning ?s0"
      by (simp add: hasRunning_iff rt_def spring_def)
    have "reg_ok ?s0 = reg_ok s"
      by (rule reg_ok_cong) simp_all
    with assms(1) have "reg_ok ?s0"
      by (simp add: wf_def)
    from onFrame_idle_shutdown [OF this run, of t] onFrame_frame [of t ?s0] assms(2)
    show ?thesis
      unfolding s' by (simp add: all_registered_def registered_def)
  qed
qed

lemma idle_shutdown_run:
  assumes "wf s" and "all_registered s" and "idle_shutdown s"
    and "\<forall>a \<in> set as. \<not> is_Remove a" and "run as s = Some s'"
  shows "all_registered s' \<and> idle_shutdown s'"
  using assms
proof (induction as arbitrary: s)
  case Nil
  then show ?case by simp
next
  case (Cons a as)
  from Cons.prems(5) obtain s1 where s1: "exec a s = Some s1" "run as s1 = Some s'"
    by (auto split: option.splits)
  from Cons.prems(4) have a: "\<not> is_Remove a" and as: "\<forall>a \<in> set as. \<not> is_Remove a"
    by simp_all
  from idle_shutdown_exec [OF Cons.prems(1-3) a s1(1)]
  have "all_registered s1" "idle_shutdown s1"
    by simp_all
  from Cons.IH [OF wf_exec [OF Cons.prems(1) s1(1)] this as s1(2)]
  show ?case .
qed

lemma idle_shutdown_without_remove:
  assumes "\<forall>a \<in> set as. \<not> is_Remove a" and "run as initial = Some s"
  shows "hasRunning s \<or> \<not> loopActive s"
proof -
  have "all_registered initial" "idle_shutdown initial"
    by (simp_all add: all_registered_def idle_shutdown_def initial_def)
  from idle_shutdown_run [OF wf_initial this assms]
  have "idle_shutdown s" by simp
  moreover from wf_run [OF wf_initial assms(2)] have "sched_ok s"
    by (simp add: wf_def)
  ultimately show ?thesis
    by (auto simp: idle_shutdown_def sched_ok_def loopActive_def)
qed

section \<open>C7: \<open>onChange\<close> once per tick\<close>

text \<open>
  In \<open>EasySpring.ts\<close>: when the loop of a registered spring runs to its end in a tick
  (the spring hits no rest condition), the tick calls \<open>onChange\<close> of that spring once,
  whatever the number of sub-steps, with the position after the last sub-step, and calls
  no other callback of it.
\<close>

lemma onChange_once_per_tick:
  assumes "reg_ok s" and "h \<in> set (registered s)" and "\<not> elapsed t s > 100"
    and "fst (springLoop (nat (subStepCount t s)) (activeConfig s h)
           (Num (elapsed t s / of_int (subStepCount t s))) (option (spring s h)) h (rt s h))"
  shows "callbacks_of h (trace (onFrame t s))
         = callbacks_of h (trace s)
           @ (if onChange (option (spring s h))
              then [OnChange h (current (rt (onFrame t s) h))] else [])"
proof -
  obtain c r1 es where loop:
    "springLoop (nat (subStepCount t s)) (activeConfig s h)
       (Num (elapsed t s / of_int (subStepCount t s))) (option (spring s h)) h (rt s h) = (c, r1, es)"
    by (rule prod_cases3)
  with assms(4) have c: "c" by simp
  with loop have es: "es = []"
    by (auto dest: springLoop_completed)
  from onFrame_registered [OF assms(1-3)] show ?thesis
    by (simp add: springFrame_def loop c es)
qed

text \<open>
  Claim C7 on the code of \<open>src/unnamed/part_000\<close>, at a failing input: a spring is
  created at \<open>0\<close> and started toward \<open>100\<close>; the first tick comes at time \<open>0\<close> and
  the second at \<open>10/9\<close> ms, which makes two sub-steps.  The spring hits no rest
  condition (it is running afterwards), and the second tick has called \<open>onChange\<close> twice,
  once after each sub-step.
\<close>

theorem part_000_onChange_per_sub_step:
  "map_option (\<lambda>(h, s0). trace (tick_000 0 (start_000 h 100 s0)))
     (controller (plain_option None) [7] initial)
   = Some [OnStart 0 0] \<and>
   map_option (\<lambda>(h, s0). trace (tick_000 (10 / 9) (tick_000 0 (start_000 h 100 s0))))
     (controller (plain_option None) [7] initial)
   = Some [OnStart 0 0, OnChange 0 (17 / 3240), OnChange 0 (16444151 / 1049760000)] \<and>
   map_option (\<lambda>(h, s0). rt (tick_000 (10 / 9) (tick_000 0 (start_000 h 100 s0))) h)
     (controller (plain_option None) [7] initial)
   = Some \<lparr>goal = 100, current = 16444151 / 1049760000, v = 10936151 / 583200,
           running = True, startConfig = None\<rparr>"
  by code_simp

end
